theory Spec2Isabelle
  imports Main "HOL-Library.Word"
begin

unbundle bit_operations_syntax

section \<open>Machine types\<close>

text \<open>
  \<^verbatim>\<open>uint8_t\<close> and \<open>uint32_t\<close> are words; \<^verbatim>\<open>size_t\<close> is the 64-bit word of an LP64
  POSIX host (the flasher uses termios and poll).  Lengths of buffers that exist in
  memory (payloads, the image, offsets into it) are natural numbers: they are far
  below \<open>2 ^ 64\<close>, so the \<^verbatim>\<open>size_t\<close> arithmetic on them cannot wrap, except where
  the source subtracts below zero; those places are written out.  \<^verbatim>\<open>int\<close>
  timeouts are integers (the callers pass 50 to 5000); they are only compared and
  handed on, except in \<^verbatim>\<open>sbl_wait_ack\<close>, whose one addition is checked against
  the range of a 32-bit \<^verbatim>\<open>int\<close>.
\<close>

type_synonym u8 = "8 word"
type_synonym u32 = "32 word"
type_synonym size_t = "64 word"

section \<open>The serial transport (serial.h)\<close>

text \<open>
  The transport is the program's environment.  Its behaviour during one run is a
  script: \<open>rx\<close> lists what the successive calls of \<^verbatim>\<open>serial_read_timeout\<close> will
  find (a failing poll or read, an empty poll window, or a burst of bytes that one
  \<^verbatim>\<open>read\<close> may return), and \<open>wr\<close> lists the outcomes of the successive calls of
  \<^verbatim>\<open>serial_write_all\<close> (\<open>True\<close> is success).  An exhausted \<open>rx\<close> is a silent
  line; an exhausted \<open>wr\<close> is a healthy one.  \<open>tx\<close> is the log of the calls of
  \<^verbatim>\<open>serial_write_all\<close>, one entry per call, holding the buffer passed.
\<close>

datatype rx_event = RxError | RxTimeout | RxData "u8 list"

record transport =
  rx :: "rx_event list"
  tx :: "u8 list list"
  wr :: "bool list"

text \<open>
  The result of \<^verbatim>\<open>serial_read_timeout\<close>: \<open>RdErr\<close> is \<open>-1\<close>, \<open>RdNone\<close> is \<open>0\<close>
  (poll timed out, or \<^verbatim>\<open>read\<close> returned nothing), \<open>RdBytes bs\<close> is \<open>n > 0\<close> with the
  \<open>n = length bs\<close> bytes stored in the buffer.
\<close>

datatype rd_result = RdErr | RdNone | RdBytes "u8 list"

definition serial_read_timeout :: "transport \<Rightarrow> nat \<Rightarrow> int \<Rightarrow> rd_result \<times> transport" where
  "serial_read_timeout t len timeout_ms =
     (case rx t of
        [] \<Rightarrow> (RdNone, t)
      | RxError # r \<Rightarrow> (RdErr, t\<lparr>rx := r\<rparr>)
      | RxTimeout # r \<Rightarrow> (RdNone, t\<lparr>rx := r\<rparr>)
      | RxData bs # r \<Rightarrow>
          (if len = 0 then (RdNone, t)
           else if bs = [] then (RdNone, t\<lparr>rx := r\<rparr>)
           else (RdBytes (take len bs),
                 t\<lparr>rx := (if drop len bs = [] then r else RxData (drop len bs) # r)\<rparr>)))"

definition serial_write_all :: "transport \<Rightarrow> u8 list \<Rightarrow> bool \<times> transport" where
  "serial_write_all t buf =
     (case wr t of
        [] \<Rightarrow> (True, t\<lparr>tx := tx t @ [buf]\<rparr>)
      | ok # w \<Rightarrow> (ok, t\<lparr>tx := tx t @ [buf], wr := w\<rparr>))"

text \<open>The number of read calls a script can still serve; every served call lowers it.\<close>

fun rx_size :: "rx_event list \<Rightarrow> nat" where
  "rx_size [] = 0"
| "rx_size (RxData bs # r) = Suc (length bs) + rx_size r"
| "rx_size (e # r) = Suc (rx_size r)"

section \<open>sbl.c: I/O helpers\<close>

text \<open>
  \<^verbatim>\<open>read_exact_timeout(fd, buf, len, timeout_ms)\<close>: the loop state is the transport, the
  bytes stored so far and \<open>got\<close>.  The result is the return value (\<open>-1\<close>, \<open>0\<close>, \<open>1\<close>)
  with the bytes stored in \<open>buf[0..got)\<close>.
\<close>

function read_exact_loop ::
  "transport \<Rightarrow> u8 list \<Rightarrow> nat \<Rightarrow> nat \<Rightarrow> int \<Rightarrow> (int \<times> u8 list) \<times> transport" where
  "read_exact_loop t buf got len timeout_ms =
     (if got < len then
        (case serial_read_timeout t (len - got) timeout_ms of
           (RdErr, t') \<Rightarrow> ((- 1, buf), t')
         | (RdNone, t') \<Rightarrow> ((0, buf), t')
         | (RdBytes bs, t') \<Rightarrow>
             (if bs = [] then ((0, buf), t')
              else read_exact_loop t' (buf @ bs) (got + length bs) len timeout_ms))
      else ((1, buf), t))"
  by pat_completeness auto
termination
  by (relation "measure (\<lambda>(t, buf, got, len, timeout_ms). len - got)")
    (auto simp: neq_Nil_conv)

declare read_exact_loop.simps [simp del]

definition read_exact_timeout :: "transport \<Rightarrow> nat \<Rightarrow> int \<Rightarrow> (int \<times> u8 list) \<times> transport" where
  "read_exact_timeout t len timeout_ms = read_exact_loop t [] 0 len timeout_ms"

section \<open>sbl.c: the SBL core\<close>

definition SBL_ACK :: u8 where "SBL_ACK = 0xCC"
definition SBL_NACK :: u8 where "SBL_NACK = 0x33"

definition CMD_PING :: u8 where "CMD_PING = 0x20"
definition CMD_DOWNLOAD :: u8 where "CMD_DOWNLOAD = 0x21"
definition CMD_GET_STATUS :: u8 where "CMD_GET_STATUS = 0x23"
definition CMD_SEND_DATA :: u8 where "CMD_SEND_DATA = 0x24"
definition CMD_RESET :: u8 where "CMD_RESET = 0x25"
definition CMD_SECTOR_ERASE :: u8 where "CMD_SECTOR_ERASE = 0x26"
definition CMD_CRC32 :: u8 where "CMD_CRC32 = 0x27"
definition CMD_GET_CHIP_ID :: u8 where "CMD_GET_CHIP_ID = 0x28"

text \<open>
  A return of \<open>-1\<close> is told apart by \<^verbatim>\<open>errno\<close>: the four values sbl.c assigns, \<open>EIO\<close>
  for a failure of the transport (which leaves the operating system's \<^verbatim>\<open>errno\<close>), and
  \<open>Errno_unset\<close> where sbl.c returns \<open>-1\<close> without any assignment (a response frame
  that stops arriving).  One more value, \<open>Trap_int_overflow\<close>, is not a return at
  all: it stands for the undefined behaviour of a signed addition that leaves the range
  of \<^verbatim>\<open>int\<close>.
\<close>

datatype sbl_error =
  EINVAL | EPROTO | ETIMEDOUT | EMSGSIZE | EIO | Errno_unset | Trap_int_overflow

text \<open>The largest value of \<^verbatim>\<open>int\<close>, which has 32 bits on the platforms of the program.\<close>

definition INT_MAX :: int where "INT_MAX = 2147483647"

text \<open>
  \<^verbatim>\<open>sbl_wait_ack\<close>: the loop state is the transport and \<open>waited\<close>.  Both \<open>waited\<close>
  and \<open>timeout_ms\<close> are \<^verbatim>\<open>int\<close>; the only arithmetic on them is
  \<^verbatim>\<open>waited += step_ms\<close> at the end of a round, which traps when the sum exceeds
  \<open>INT_MAX\<close>.
\<close>

function sbl_wait_ack_loop ::
  "transport \<Rightarrow> int \<Rightarrow> int \<Rightarrow> (sbl_error + unit) \<times> transport" where
  "sbl_wait_ack_loop t timeout_ms waited =
     (if waited < timeout_ms then
        (case serial_read_timeout t 1 20 of
           (RdErr, t') \<Rightarrow> (Inl EIO, t')
         | (RdNone, t') \<Rightarrow>
             (if INT_MAX < waited + 20 then (Inl Trap_int_overflow, t')
              else sbl_wait_ack_loop t' timeout_ms (waited + 20))
         | (RdBytes bs, t') \<Rightarrow>
             (if length bs = 1 \<and> hd bs = SBL_ACK then (Inr (), t')
              else if length bs = 1 \<and> hd bs = SBL_NACK then (Inl EPROTO, t')
              else if INT_MAX < waited + 20 then (Inl Trap_int_overflow, t')
              else sbl_wait_ack_loop t' timeout_ms (waited + 20)))
      else (Inl ETIMEDOUT, t))"
  by pat_completeness auto
termination
  by (relation "measure (\<lambda>(t, timeout_ms, waited). nat (timeout_ms - waited))") auto

declare sbl_wait_ack_loop.simps [simp del]

definition sbl_wait_ack :: "transport \<Rightarrow> int \<Rightarrow> (sbl_error + unit) \<times> transport" where
  "sbl_wait_ack t timeout_ms = sbl_wait_ack_loop t timeout_ms 0"

text \<open>\<^verbatim>\<open>checksum_sum\<close>: an \<^verbatim>\<open>unsigned\<close> accumulator, masked to a byte.\<close>

definition checksum_sum :: "u8 list \<Rightarrow> u8" where
  "checksum_sum data = ucast (fold (\<lambda>b sum. sum + ucast b) data (0 :: u32) AND 0xFF)"

text \<open>
  The frame \<^verbatim>\<open>[SIZE][CHECKSUM][DATA...]\<close> that \<^verbatim>\<open>sbl_send_cmd\<close> assembles in its local
  array \<^verbatim>\<open>frame\<close>, for a payload of 1 to 253 bytes.
\<close>

definition build_frame :: "u8 list \<Rightarrow> u8 list" where
  "build_frame data =
     (let size = (of_nat (length data + 2) :: u8);
          csum = checksum_sum data
      in size # csum # data)"

text \<open>
  The response block of \<^verbatim>\<open>sbl_send_cmd\<close> (entered when \<^verbatim>\<open>out && out_max\<close>), on its
  own.  \<open>sz\<close> and \<open>rx_csum\<close> start at 0 and keep that value when nothing is read.
  The result is the returned length with the bytes stored in \<open>out\<close>, as one list.
\<close>

definition sbl_read_response ::
  "transport \<Rightarrow> nat \<Rightarrow> int \<Rightarrow> (sbl_error + u8 list) \<times> transport" where
  "sbl_read_response t out_max timeout_ms =
     (case read_exact_timeout t 1 50 of
        ((r, szb), t1) \<Rightarrow>
          (let sz = (case szb of [] \<Rightarrow> 0 | b # _ \<Rightarrow> b) in
           if r > 0 \<and> sz \<noteq> 0 then
             (case read_exact_timeout t1 1 timeout_ms of
                ((r2, csb), t2) \<Rightarrow>
                  if r2 \<le> 0 then (Inl (if r2 < 0 then EIO else Errno_unset), t2)
                  else
                    (let rx_csum = (case csb of [] \<Rightarrow> 0 | b # _ \<Rightarrow> b);
                         payload_len = (ucast sz :: size_t) - 2 in
                     if unat payload_len > out_max then (Inl EMSGSIZE, t2)
                     else
                       (case read_exact_timeout t2 (unat payload_len) timeout_ms of
                          ((r3, out), t3) \<Rightarrow>
                            if r3 \<le> 0 then (Inl (if r3 < 0 then EIO else Errno_unset), t3)
                            else
                              (case serial_write_all t3 [0x00, SBL_ACK] of
                                 (False, t4) \<Rightarrow> (Inl EIO, t4)
                               | (True, t4) \<Rightarrow>
                                   if checksum_sum out \<noteq> rx_csum then (Inl EPROTO, t4)
                                   else (Inr out, t4)))))
           else (Inr [], t1)))"

text \<open>
  \<^verbatim>\<open>sbl_send_cmd(fd, data, len, out, out_max, timeout_ms)\<close>.  \<open>data\<close> is the buffer
  with its length (a \<^verbatim>\<open>NULL\<close> buffer, which the source rejects like an empty one, has
  no counterpart); \<open>out_max = 0\<close> stands for both \<^verbatim>\<open>out == NULL\<close> and
  \<^verbatim>\<open>out_max == 0\<close>.  \<open>Inr p\<close> is the return value \<open>length p\<close> with \<open>p\<close> stored in
  \<open>out\<close>.
\<close>

definition sbl_send_cmd ::
  "transport \<Rightarrow> u8 list \<Rightarrow> nat \<Rightarrow> int \<Rightarrow> (sbl_error + u8 list) \<times> transport" where
  "sbl_send_cmd t data out_max timeout_ms =
     (let len = length data in
      if len = 0 \<or> len > 253 then (Inl EINVAL, t)
      else
        (case serial_write_all t (build_frame data) of
           (False, t1) \<Rightarrow> (Inl EIO, t1)
         | (True, t1) \<Rightarrow>
             (case sbl_wait_ack t1 timeout_ms of
                (Inl e, t2) \<Rightarrow> (Inl e, t2)
              | (Inr _, t2) \<Rightarrow>
                  if out_max \<noteq> 0 then sbl_read_response t2 out_max timeout_ms
                  else (Inr [], t2))))"

section \<open>sbl.c: convenience commands\<close>

text \<open>
  A command without response passes \<^verbatim>\<open>sbl_send_cmd\<close>'s result on.  A command with
  an output parameter takes the value the parameter holds before the call and returns
  the value it holds after (the callers in this repository never pass \<^verbatim>\<open>NULL\<close>).
\<close>

definition sbl_get_status :: "transport \<Rightarrow> int \<Rightarrow> u8 \<Rightarrow> (sbl_error + u8) \<times> transport" where
  "sbl_get_status t timeout_ms status =
     (case sbl_send_cmd t [CMD_GET_STATUS] 1 timeout_ms of
        (Inl e, t') \<Rightarrow> (Inl e, t')
      | (Inr resp, t') \<Rightarrow> (Inr (if length resp = 1 then resp ! 0 else status), t'))"

definition sbl_get_chip_id :: "transport \<Rightarrow> int \<Rightarrow> u32 \<Rightarrow> (sbl_error + u32) \<times> transport" where
  "sbl_get_chip_id t timeout_ms chip_id =
     (case sbl_send_cmd t [CMD_GET_CHIP_ID] 4 timeout_ms of
        (Inl e, t') \<Rightarrow> (Inl e, t')
      | (Inr resp, t') \<Rightarrow>
          (Inr (if length resp = 4
                then ucast (resp ! 0) OR
                     push_bit 8 (ucast (resp ! 1)) OR
                     push_bit 16 (ucast (resp ! 2)) OR
                     push_bit 24 (ucast (resp ! 3))
                else chip_id), t'))"

definition sbl_reset :: "transport \<Rightarrow> int \<Rightarrow> (sbl_error + u8 list) \<times> transport" where
  "sbl_reset t timeout_ms = sbl_send_cmd t [CMD_RESET] 0 timeout_ms"

definition sbl_download ::
  "transport \<Rightarrow> u32 \<Rightarrow> u32 \<Rightarrow> int \<Rightarrow> (sbl_error + u8 list) \<times> transport" where
  "sbl_download t addr total_len timeout_ms =
     sbl_send_cmd t
       [CMD_DOWNLOAD,
        ucast (drop_bit 24 addr), ucast (drop_bit 16 addr), ucast (drop_bit 8 addr), ucast addr,
        ucast (drop_bit 24 total_len), ucast (drop_bit 16 total_len),
        ucast (drop_bit 8 total_len), ucast total_len]
       0 timeout_ms"

definition sbl_sector_erase :: "transport \<Rightarrow> u32 \<Rightarrow> int \<Rightarrow> (sbl_error + u8 list) \<times> transport" where
  "sbl_sector_erase t addr timeout_ms =
     sbl_send_cmd t
       [CMD_SECTOR_ERASE,
        ucast (drop_bit 24 addr), ucast (drop_bit 16 addr), ucast (drop_bit 8 addr), ucast addr]
       0 timeout_ms"

definition sbl_send_data :: "transport \<Rightarrow> u8 list \<Rightarrow> int \<Rightarrow> (sbl_error + u8 list) \<times> transport" where
  "sbl_send_data t chunk timeout_ms =
     (let n = length chunk in
      if n = 0 \<or> n > 252 then (Inl EINVAL, t)
      else sbl_send_cmd t (CMD_SEND_DATA # chunk) 0 timeout_ms)"

definition sbl_crc32 ::
  "transport \<Rightarrow> u32 \<Rightarrow> u32 \<Rightarrow> u32 \<Rightarrow> int \<Rightarrow> u32 \<Rightarrow> (sbl_error + u32) \<times> transport" where
  "sbl_crc32 t addr len repeat timeout_ms crc =
     (case sbl_send_cmd t
             [CMD_CRC32,
              ucast (drop_bit 24 addr), ucast (drop_bit 16 addr), ucast (drop_bit 8 addr), ucast addr,
              ucast (drop_bit 24 len), ucast (drop_bit 16 len), ucast (drop_bit 8 len), ucast len,
              ucast (drop_bit 24 repeat), ucast (drop_bit 16 repeat),
              ucast (drop_bit 8 repeat), ucast repeat]
             4 timeout_ms of
        (Inl e, t') \<Rightarrow> (Inl e, t')
      | (Inr resp, t') \<Rightarrow>
          (if length resp \<noteq> 4 then (Inl EPROTO, t')
           else (Inr (push_bit 24 (ucast (resp ! 0)) OR
                      push_bit 16 (ucast (resp ! 1)) OR
                      push_bit 8 (ucast (resp ! 2)) OR
                      ucast (resp ! 3)), t')))"

section \<open>What a call does to the transport\<close>

text \<open>
  Reads leave the write log alone and never put events back; a write appends one
  entry; an acknowledged command has consumed at least the byte \<open>0xCC\<close>.
\<close>

lemma serial_read_timeout_effect:
  assumes "serial_read_timeout t len to = (r, t')"
  shows "tx t' = tx t" and "wr t' = wr t" and "rx_size (rx t') \<le> rx_size (rx t)"
    and "r \<noteq> RdNone \<Longrightarrow> rx_size (rx t') < rx_size (rx t)"
  using assms
  by (auto simp: serial_read_timeout_def split: list.splits rx_event.splits if_splits)

lemma serial_write_all_effect:
  assumes "serial_write_all t buf = (ok, t')"
  shows "tx t' = tx t @ [buf]" and "rx t' = rx t"
  using assms by (auto simp: serial_write_all_def split: list.splits)

lemma sbl_wait_ack_loop_effect:
  "sbl_wait_ack_loop t to w = (r, t') \<Longrightarrow>
     tx t' = tx t \<and> wr t' = wr t \<and> rx_size (rx t') \<le> rx_size (rx t) \<and>
     (r = Inr () \<longrightarrow> rx_size (rx t') < rx_size (rx t))"
proof (induction t to w rule: sbl_wait_ack_loop.induct)
  case (1 t timeout_ms waited)
  note [simp] = sbl_wait_ack_loop.simps [of t timeout_ms waited]
  show ?case
  proof (cases "waited < timeout_ms")
    case False
    with "1.prems" show ?thesis by auto
  next
    case True
    obtain rr t1 where s: "serial_read_timeout t 1 20 = (rr, t1)" by fastforce
    note eff = serial_read_timeout_effect [OF s]
    show ?thesis
    proof (cases rr)
      case RdErr
      with True s "1.prems" eff show ?thesis by simp
    next
      case RdNone
      show ?thesis
      proof (cases "INT_MAX < waited + 20")
        case True
        with \<open>waited < timeout_ms\<close> s RdNone "1.prems" eff(1-3) show ?thesis by auto
      next
        case False
        with \<open>waited < timeout_ms\<close> s RdNone "1.prems"
        have "sbl_wait_ack_loop t1 timeout_ms (waited + 20) = (r, t')" by simp
        from "1.IH"(1) [OF \<open>waited < timeout_ms\<close> s [symmetric] RdNone False this] eff(1-3)
        show ?thesis by auto
      qed
    next
      case (RdBytes bs)
      then have lt: "rx_size (rx t1) < rx_size (rx t)" using eff(4) by simp
      show ?thesis
      proof (cases "(length bs = 1 \<and> hd bs = SBL_ACK) \<or> (length bs = 1 \<and> hd bs = SBL_NACK)")
        case True
        with \<open>waited < timeout_ms\<close> s RdBytes "1.prems" eff(1,2) lt show ?thesis
          by (auto split: if_splits)
      next
        case other: False
        show ?thesis
        proof (cases "INT_MAX < waited + 20")
          case True
          with other \<open>waited < timeout_ms\<close> s RdBytes "1.prems" eff(1,2) lt show ?thesis
            by (auto split: if_splits)
        next
          case False
          with other \<open>waited < timeout_ms\<close> s RdBytes "1.prems"
          have "sbl_wait_ack_loop t1 timeout_ms (waited + 20) = (r, t')" by auto
          from "1.IH"(2) [OF \<open>waited < timeout_ms\<close> s [symmetric] RdBytes _ _ False this]
            other eff(1,2) lt
          show ?thesis by auto
        qed
      qed
    qed
  qed
qed

lemma read_exact_loop_effect:
  "read_exact_loop t buf got len to = ((r, out), t') \<Longrightarrow>
     tx t' = tx t \<and> wr t' = wr t \<and> rx_size (rx t') \<le> rx_size (rx t) \<and>
     (r = - 1 \<or> r = 0 \<or> r = 1) \<and>
     (0 < r \<longrightarrow> got \<le> len \<longrightarrow> length out = length buf + (len - got))"
proof (induction t buf got len to rule: read_exact_loop.induct)
  case (1 t buf got len timeout_ms)
  note [simp] = read_exact_loop.simps [of t buf got len timeout_ms]
  show ?case
  proof (cases "got < len")
    case False
    with "1.prems" show ?thesis by simp
  next
    case True
    obtain rr t1 where s: "serial_read_timeout t (len - got) timeout_ms = (rr, t1)" by fastforce
    note eff = serial_read_timeout_effect(1-3) [OF s]
    show ?thesis
    proof (cases rr)
      case RdErr
      with True s "1.prems" eff show ?thesis by simp
    next
      case RdNone
      with True s "1.prems" eff show ?thesis by simp
    next
      case (RdBytes bs)
      show ?thesis
      proof (cases "bs = []")
        case True
        with \<open>got < len\<close> s RdBytes "1.prems" eff show ?thesis by simp
      next
        case False
        with \<open>got < len\<close> s RdBytes "1.prems"
        have rec: "read_exact_loop t1 (buf @ bs) (got + length bs) len timeout_ms = ((r, out), t')"
          by simp
        have "length bs \<le> len - got"
          using s RdBytes \<open>got < len\<close>
          by (auto simp: serial_read_timeout_def split: list.splits rx_event.splits if_splits)
        with "1.IH" [OF \<open>got < len\<close> s [symmetric] RdBytes False rec] eff
        show ?thesis by auto
      qed
    qed
  qed
qed

lemma read_exact_timeout_effect:
  assumes "read_exact_timeout t len to = ((r, out), t')"
  shows "tx t' = tx t" and "wr t' = wr t" and "rx_size (rx t') \<le> rx_size (rx t)"
    and "r = - 1 \<or> r = 0 \<or> r = 1" and "0 < r \<Longrightarrow> length out = len"
  using read_exact_loop_effect [of t "[]" 0 len to r out t'] assms
  by (simp_all add: read_exact_timeout_def)

lemma sbl_read_response_effect:
  assumes "sbl_read_response t out_max to = (r, t')"
  shows "rx_size (rx t') \<le> rx_size (rx t)"
    and "tx t' = tx t \<or> tx t' = tx t @ [[0x00, SBL_ACK]]"
    and "r = Inr p \<Longrightarrow> length p \<le> out_max"
proof -
  obtain r1 szb t1 where a: "read_exact_timeout t 1 50 = ((r1, szb), t1)"
    by (metis surj_pair)
  obtain r2 csb t2 where b: "read_exact_timeout t1 1 to = ((r2, csb), t2)"
    by (metis surj_pair)
  define sz where "sz = (case szb of [] \<Rightarrow> 0 | b # _ \<Rightarrow> b)"
  obtain r3 out t3 where c: "read_exact_timeout t2 (unat ((ucast sz :: size_t) - 2)) to = ((r3, out), t3)"
    by (metis surj_pair)
  obtain ok t4 where d: "serial_write_all t3 [0x00, SBL_ACK] = (ok, t4)"
    by (metis surj_pair)
  note ea = read_exact_timeout_effect [OF a]
  note eb = read_exact_timeout_effect [OF b]
  note ec = read_exact_timeout_effect [OF c]
  note ed = serial_write_all_effect [OF d]
  have r: "(r, t') =
     (if r1 > 0 \<and> sz \<noteq> 0 then
        if r2 \<le> 0 then (Inl (if r2 < 0 then EIO else Errno_unset), t2)
        else if unat ((ucast sz :: size_t) - 2) > out_max then (Inl EMSGSIZE, t2)
        else if r3 \<le> 0 then (Inl (if r3 < 0 then EIO else Errno_unset), t3)
        else if \<not> ok then (Inl EIO, t4)
        else if checksum_sum out \<noteq> (case csb of [] \<Rightarrow> 0 | b # _ \<Rightarrow> b) then (Inl EPROTO, t4)
        else (Inr out, t4)
      else (Inr [], t1))"
    using assms unfolding sbl_read_response_def a prod.case Let_def sz_def [symmetric] b c d
    by (cases ok) (auto split: if_splits)
  show "rx_size (rx t') \<le> rx_size (rx t)"
    using r ea(3) eb(3) ec(3) ed(2) by (auto split: if_splits)
  show "tx t' = tx t \<or> tx t' = tx t @ [[0x00, SBL_ACK]]"
    using r ea(1) eb(1) ec(1) ed(1) by (auto split: if_splits)
  show "length p \<le> out_max" if "r = Inr p"
    using that r ec(5) by (auto split: if_splits)
qed


lemma sbl_wait_ack_effect:
  assumes "sbl_wait_ack t to = (r, t')"
  shows "tx t' = tx t" and "rx_size (rx t') \<le> rx_size (rx t)"
    and "r = Inr u \<Longrightarrow> rx_size (rx t') < rx_size (rx t)"
  using sbl_wait_ack_loop_effect [of t to 0 r t'] assms
  by (simp_all add: sbl_wait_ack_def)

lemma sbl_send_cmd_effect:
  assumes "sbl_send_cmd t data out_max to = (r, t')"
    and "0 < length data" and "length data \<le> 253"
  shows "tx t' = tx t @ [build_frame data] \<or>
         (out_max \<noteq> 0 \<and> tx t' = tx t @ [build_frame data, [0x00, SBL_ACK]])"
    and "rx_size (rx t') \<le> rx_size (rx t)"
    and "r = Inr p \<Longrightarrow> rx_size (rx t') < rx_size (rx t)"
    and "r = Inr p \<Longrightarrow> length p \<le> out_max"
proof -
  obtain ok t1 where a: "serial_write_all t (build_frame data) = (ok, t1)"
    by (metis surj_pair)
  obtain r2 t2 where b: "sbl_wait_ack t1 to = (r2, t2)"
    by (metis surj_pair)
  obtain r3 t3 where c: "sbl_read_response t2 out_max to = (r3, t3)"
    by (metis surj_pair)
  note ea = serial_write_all_effect [OF a]
  note eb = sbl_wait_ack_effect [OF b]
  note ec = sbl_read_response_effect [OF c]
  have r: "(r, t') =
     (if \<not> ok then (Inl EIO, t1)
      else case r2 of Inl e \<Rightarrow> (Inl e, t2)
           | Inr u \<Rightarrow> if out_max \<noteq> 0 then (r3, t3) else (Inr [], t2))"
    using assms a b c unfolding sbl_send_cmd_def Let_def
    by (cases ok; cases r2) auto
  show "tx t' = tx t @ [build_frame data] \<or>
         (out_max \<noteq> 0 \<and> tx t' = tx t @ [build_frame data, [0x00, SBL_ACK]])"
    using r ea eb(1) ec(2) by (auto split: if_splits sum.splits)
  show "rx_size (rx t') \<le> rx_size (rx t)"
    using r ea eb(2) ec(1) by (auto split: if_splits sum.splits)
  show "rx_size (rx t') < rx_size (rx t)" if "r = Inr p"
    using that r ea eb(2,3) ec(1) by (auto split: if_splits sum.splits)
  show "length p \<le> out_max" if "r = Inr p"
    using that r ec(3) by (auto split: if_splits sum.splits)
qed

lemma sbl_sector_erase_rx:
  assumes "sbl_sector_erase t a to = (Inr p, t')"
  shows "rx_size (rx t') < rx_size (rx t)"
  using sbl_send_cmd_effect(3) [OF assms [unfolded sbl_sector_erase_def]] by simp

lemma sbl_get_status_rx:
  assumes "sbl_get_status t to st = (r, t')"
  shows "rx_size (rx t') \<le> rx_size (rx t)"
proof -
  obtain r1 t1 where a: "sbl_send_cmd t [CMD_GET_STATUS] 1 to = (r1, t1)"
    by (metis surj_pair)
  from sbl_send_cmd_effect(2) [OF a] assms a show ?thesis
    by (auto simp: sbl_get_status_def split: sum.splits)
qed

section \<open>sbl.c: the programming workflow\<close>

text \<open>
  \<^verbatim>\<open>sbl_program_binary\<close> returns \<open>-1\<close> after a message on \<^verbatim>\<open>stderr\<close>; the error
  value names that message and carries what it prints.  Two values stand for
  undefined behaviour of the C program instead of a return: \<open>Trap_div_by_zero\<close> for
  \<^verbatim>\<open>base_addr % page_size\<close> with \<^verbatim>\<open>page_size == 0\<close>, and \<open>Trap_copy_overrun\<close> for the
  \<^verbatim>\<open>memcpy\<close> whose length \<^verbatim>\<open>image_len - off\<close> has wrapped below zero.  The progress
  lines on \<^verbatim>\<open>stdout\<close> are not modelled.
\<close>

datatype prog_error =
    Trap_div_by_zero
  | Not_page_aligned
  | Erase_failed u32
  | Status_after_erase_failed u32
  | Download_failed
  | Status_after_download_failed
  | Download_rejected u8
  | Trap_copy_overrun nat
  | Send_data_failed nat
  | Status_failed_after nat
  | Prog_status_not_success u8 nat

definition erase_len_rounded :: "u32 \<Rightarrow> size_t \<Rightarrow> u32" where
  "erase_len_rounded page_size image_len =
     ucast ((image_len + ucast page_size - 1) AND ucast (NOT (page_size - 1)))"

definition erase_len_capped :: "u32 \<Rightarrow> u32 \<Rightarrow> u32 \<Rightarrow> u32 \<Rightarrow> u32" where
  "erase_len_capped flash_size page_size base_addr erase_len =
     (let last_page_start = flash_size - page_size in
      if base_addr + erase_len > last_page_start then last_page_start - base_addr
      else erase_len)"

text \<open>
  The erase loop.  \<open>lim\<close> is \<^verbatim>\<open>base_addr + erase_len\<close>, which the loop does not
  change.  The status byte read after each erase is printed and then dropped.  Every
  round that continues has consumed an acknowledgement, so the loop ends on every
  script.
\<close>

function erase_loop ::
  "transport \<Rightarrow> u32 \<Rightarrow> u32 \<Rightarrow> u32 \<Rightarrow> (prog_error + unit) \<times> transport" where
  "erase_loop t a lim page_size =
     (if a < lim then
        (case sbl_sector_erase t a 5000 of
           (r, t1) \<Rightarrow>
             if r \<noteq> Inr [] then (Inl (Erase_failed a), t1)
             else
               (case sbl_get_status t1 1000 0 of
                  (Inl e, t2) \<Rightarrow> (Inl (Status_after_erase_failed a), t2)
                | (Inr st, t2) \<Rightarrow> erase_loop t2 (a + page_size) lim page_size))
      else (Inr (), t))"
  by pat_completeness auto
termination erase_loop
  by (relation "measure (\<lambda>(t, a, lim, page_size). rx_size (rx t))")
    (auto dest!: sbl_sector_erase_rx [OF sym] sbl_get_status_rx [OF sym])

declare erase_loop.simps [simp del]

text \<open>The length announced to the device: lines 357 to 362.\<close>

definition total_len_of :: "nat \<Rightarrow> nat" where
  "total_len_of image_len =
     (let remainder = image_len mod 4 in
      if remainder \<noteq> 0 then image_len + (4 - remainder) else image_len)"

text \<open>The transfer loop; the loop state is the transport and \<open>off\<close>.\<close>

function transfer_loop ::
  "transport \<Rightarrow> u8 list \<Rightarrow> nat \<Rightarrow> nat \<Rightarrow> (prog_error + unit) \<times> transport" where
  "transfer_loop t img total_len off =
     (if off < total_len then
        (let image_len = length img;
             chunk_len = (if total_len - off > 252 then 252 else total_len - off)
         in
         if off + chunk_len > image_len \<and> image_len < off then (Inl (Trap_copy_overrun off), t)
         else
           (let copy_len = (if off + chunk_len > image_len then image_len - off else chunk_len);
                buf = take copy_len (drop off img) @ replicate (chunk_len - copy_len) 0xFF
            in
            case sbl_send_data t buf 1000 of
              (r, t1) \<Rightarrow>
                if r \<noteq> Inr [] then (Inl (Send_data_failed off), t1)
                else
                  (case sbl_get_status t1 500 0 of
                     (Inl e, t2) \<Rightarrow> (Inl (Status_failed_after off), t2)
                   | (Inr st, t2) \<Rightarrow>
                       if st \<noteq> 0x40 then (Inl (Prog_status_not_success st off), t2)
                       else transfer_loop t2 img total_len (off + chunk_len))))
      else (Inr (), t))"
  by pat_completeness auto
termination
  by (relation "measure (\<lambda>(t, img, total_len, off). total_len - off)")
    (auto split: if_splits)

declare transfer_loop.simps [simp del]

text \<open>
  \<^verbatim>\<open>sbl_program_binary(fd, flash_size, page_size, image, image_len, base_addr)\<close>; the
  image is the buffer \<open>img\<close> with its length.
\<close>

definition sbl_program_binary ::
  "transport \<Rightarrow> u32 \<Rightarrow> u32 \<Rightarrow> u8 list \<Rightarrow> u32 \<Rightarrow> (prog_error + unit) \<times> transport" where
  "sbl_program_binary t flash_size page_size img base_addr =
     (if page_size = 0 then (Inl Trap_div_by_zero, t)
      else if base_addr mod page_size \<noteq> 0 then (Inl Not_page_aligned, t)
      else
        (let image_len = length img;
             erase_len = erase_len_capped flash_size page_size base_addr
                           (erase_len_rounded page_size (of_nat image_len))
         in
         case erase_loop t base_addr (base_addr + erase_len) page_size of
           (Inl e, t1) \<Rightarrow> (Inl e, t1)
         | (Inr _, t1) \<Rightarrow>
             (let total_len = total_len_of image_len in
              case sbl_download t1 base_addr (of_nat total_len) 1000 of
                (r, t2) \<Rightarrow>
                  if r \<noteq> Inr [] then (Inl Download_failed, t2)
                  else
                    (case sbl_get_status t2 500 0 of
                       (Inl e, t3) \<Rightarrow> (Inl Status_after_download_failed, t3)
                     | (Inr st, t3) \<Rightarrow>
                         if st \<noteq> 0x40 then (Inl (Download_rejected st), t3)
                         else
                           (case transfer_loop t3 img total_len 0 of
                              (Inl e, t4) \<Rightarrow> (Inl e, t4)
                            | (Inr _, t4) \<Rightarrow> (Inr (), snd (sbl_reset t4 1000)))))))"

section \<open>Running the model on a concrete script\<close>

lemmas run_simps =
  sbl_send_cmd_def sbl_wait_ack_def sbl_wait_ack_loop.simps
  read_exact_timeout_def read_exact_loop.simps sbl_read_response_def
  serial_read_timeout_def serial_write_all_def build_frame_def checksum_sum_def
  SBL_ACK_def SBL_NACK_def INT_MAX_def Let_def unsigned_minus_1_eq_mask mask_eq_exp_minus_1

lemmas cmd_simps =
  sbl_get_status_def sbl_get_chip_id_def sbl_crc32_def sbl_reset_def sbl_download_def
  sbl_sector_erase_def sbl_send_data_def
  CMD_PING_def CMD_DOWNLOAD_def CMD_GET_STATUS_def CMD_SEND_DATA_def CMD_RESET_def
  CMD_SECTOR_ERASE_def CMD_CRC32_def CMD_GET_CHIP_ID_def

section \<open>Framing\<close>

lemma checksum_fold:
  "fold (\<lambda>b sum. sum + ucast b) data (s :: u32) = s + of_nat (sum_list (map unat data))"
  by (induction data arbitrary: s) (simp_all add: add.assoc)

lemma low_byte: "unat (ucast ((w :: u32) AND 0xFF) :: u8) = unat w mod 256"
proof -
  have "(0xFF :: u32) = mask 8" by (simp add: mask_eq_exp_minus_1)
  then have "w AND 0xFF = take_bit 8 w" by (simp add: take_bit_eq_mask)
  then have "unat (ucast (w AND 0xFF) :: u8) = take_bit 8 (take_bit 8 (unat w))"
    by (simp only: unsigned_ucast_eq unsigned_take_bit_eq) simp
  then show ?thesis
    by (simp add: take_bit_eq_mod)
qed

lemma unat_checksum_sum:
  "unat (checksum_sum data) = sum_list (map unat data) mod 256"
proof -
  have "unat (checksum_sum data) = unat (of_nat (sum_list (map unat data)) :: u32) mod 256"
    by (simp only: checksum_sum_def checksum_fold low_byte add_0)
  also have "\<dots> = sum_list (map unat data) mod 256"
    by (simp add: unat_of_nat mod_mod_cancel)
  finally show ?thesis .
qed

text \<open>
  Claim C6.  For a payload of 1 to 253 bytes, \<^verbatim>\<open>sbl_send_cmd\<close> makes one call of
  \<^verbatim>\<open>serial_write_all\<close> with the whole frame: the write log grows by the single entry
  \<open>build_frame data\<close>, followed at most by the two-byte acknowledgement of a response
  (and by nothing when no response buffer is given).  The frame is the payload behind
  two header bytes: the first is the payload length plus 2, the second is the sum of
  the payload bytes modulo 256.
\<close>

theorem send_cmd_writes_one_frame:
  assumes "1 \<le> length data" and "length data \<le> 253"
  shows "(\<exists>acks. tx (snd (sbl_send_cmd t data out_max timeout_ms)) =
                    tx t @ [build_frame data] @ acks \<and>
                  (acks = [] \<or> (out_max \<noteq> 0 \<and> acks = [[0x00, 0xCC]]))) \<and>
         length (build_frame data) = length data + 2 \<and>
         unat (build_frame data ! 0) = length data + 2 \<and>
         unat (build_frame data ! 1) = sum_list (map unat data) mod 256 \<and>
         drop 2 (build_frame data) = data"
proof -
  obtain r t' where s: "sbl_send_cmd t data out_max timeout_ms = (r, t')"
    by (metis surj_pair)
  from assms(1) have "0 < length data" by (cases data) simp_all
  from sbl_send_cmd_effect(1) [OF s this assms(2)]
  have "tx t' = tx t @ [build_frame data] @ [] \<or>
        (out_max \<noteq> 0 \<and> tx t' = tx t @ [build_frame data] @ [[0x00, 0xCC]])"
    by (simp add: SBL_ACK_def)
  then have "\<exists>acks. tx t' = tx t @ [build_frame data] @ acks \<and>
            (acks = [] \<or> (out_max \<noteq> 0 \<and> acks = [[0x00, 0xCC]]))"
    by blast
  moreover have "unat (of_nat (length data + 2) :: u8) = length data + 2"
    using assms by (simp only: unat_of_nat) simp
  ultimately show ?thesis
    using s by (simp add: build_frame_def unat_checksum_sum)
qed

theorem send_cmd_writes_one_frame_witness:
  "tx (snd (sbl_send_cmd \<lparr>rx = [RxData [0xCC]], tx = [], wr = []\<rparr> [0x20] 0 500)) =
     [[3, 0x20, 0x20]]"
  using send_cmd_writes_one_frame [of "[0x20]" "\<lparr>rx = [RxData [0xCC]], tx = [], wr = []\<rparr>" 0 500]
  by (simp add: build_frame_def checksum_sum_def)

text \<open>
  Claim C8.  With an empty payload or one longer than 253 bytes, \<^verbatim>\<open>sbl_send_cmd\<close>
  returns \<open>-1\<close> with \<^verbatim>\<open>errno = EINVAL\<close> and the transport is as it was: nothing was
  written and nothing was read.
\<close>

theorem send_cmd_rejects_bad_length:
  "length data = 0 \<or> 253 < length data \<Longrightarrow>
     sbl_send_cmd t data out_max timeout_ms = (Inl EINVAL, t)"
  by (simp add: sbl_send_cmd_def)

theorem send_cmd_rejects_bad_length_witness:
  "sbl_send_cmd \<lparr>rx = [RxData [0xCC]], tx = [], wr = []\<rparr> [] 4 500 =
     (Inl EINVAL, \<lparr>rx = [RxData [0xCC]], tx = [], wr = []\<rparr>) \<and>
   sbl_send_cmd \<lparr>rx = [RxData [0xCC]], tx = [], wr = []\<rparr> (replicate 254 0x55) 0 500 =
     (Inl EINVAL, \<lparr>rx = [RxData [0xCC]], tx = [], wr = []\<rparr>)"
  using send_cmd_rejects_bad_length [of "[]" "\<lparr>rx = [RxData [0xCC]], tx = [], wr = []\<rparr>" 4 500]
    send_cmd_rejects_bad_length
      [of "replicate 254 0x55" "\<lparr>rx = [RxData [0xCC]], tx = [], wr = []\<rparr>" 0 500]
  by simp

section \<open>Responses\<close>

subsection \<open>A script that answers\<close>

lemma ucast_u8_size_t: "unat (ucast (sz :: u8) :: size_t) = unat sz"
  by (simp add: unsigned_ucast_eq take_bit_nat_eq_self_iff unsigned_less [of sz, THEN less_trans])

lemma payload_len_sub:
  assumes "2 \<le> (sz :: u8)"
  shows "unat ((ucast sz :: size_t) - 2) = unat sz - 2"
proof -
  have "(2 :: size_t) \<le> ucast sz"
    using assms by (simp add: word_le_nat_alt ucast_u8_size_t)
  then show ?thesis
    by (simp add: unat_sub ucast_u8_size_t)
qed

lemma read_exact_loop_done:
  "\<not> got < len \<Longrightarrow> read_exact_loop t buf got len timeout_ms = ((1, buf), t)"
  by (simp add: read_exact_loop.simps)

lemma wait_ack_sees_ack:
  assumes "0 < timeout_ms" and "rx t = RxData (0xCC # bs) # r"
  shows "sbl_wait_ack t timeout_ms = (Inr (), t\<lparr>rx := (if bs = [] then r else RxData bs # r)\<rparr>)"
  using assms
  by (simp add: sbl_wait_ack_def sbl_wait_ack_loop.simps [of t] serial_read_timeout_def SBL_ACK_def)

lemma read_exact_chunk:
  assumes "rx t = RxData (bs @ cs) # r" and "bs \<noteq> []"
  shows "read_exact_timeout t (length bs) timeout_ms =
           ((1, bs), t\<lparr>rx := (if cs = [] then r else RxData cs # r)\<rparr>)"
  using assms
  by (simp add: read_exact_timeout_def read_exact_loop.simps [of t] read_exact_loop_done
      serial_read_timeout_def)

lemma read_exact_byte:
  assumes "rx t = RxData (b # cs) # r"
  shows "read_exact_timeout t 1 timeout_ms =
           ((1, [b]), t\<lparr>rx := (if cs = [] then r else RxData cs # r)\<rparr>)"
  using read_exact_chunk [of t "[b]" cs r timeout_ms] assms by simp

lemma send_cmd_with_response:
  assumes "1 \<le> length data" and "length data \<le> 253"
    and "0 < timeout_ms" and "wr t = []"
    and "rx t = RxData [0xCC] # RxData (sz # checksum_sum p # p) # r"
    and "p \<noteq> []" and "unat sz = length p + 2" and "length p \<le> out_max"
  shows "sbl_send_cmd t data out_max timeout_ms =
           (Inr p, t\<lparr>tx := tx t @ [build_frame data, [0x00, 0xCC]], rx := r\<rparr>)"
proof -
  define t1 where "t1 = t\<lparr>tx := tx t @ [build_frame data]\<rparr>"
  define t2 where "t2 = t1\<lparr>rx := RxData (sz # checksum_sum p # p) # r\<rparr>"
  define t3 where "t3 = t2\<lparr>rx := RxData (checksum_sum p # p) # r\<rparr>"
  define t4 where "t4 = t3\<lparr>rx := RxData p # r\<rparr>"
  define t5 where "t5 = t4\<lparr>rx := r\<rparr>"
  have w: "serial_write_all t (build_frame data) = (True, t1)"
    using assms(4) by (simp add: serial_write_all_def t1_def)
  have "rx t1 = RxData (0xCC # []) # RxData (sz # checksum_sum p # p) # r"
    using assms(5) by (simp add: t1_def)
  from wait_ack_sees_ack [OF assms(3) this]
  have a: "sbl_wait_ack t1 timeout_ms = (Inr (), t2)"
    by (simp add: t2_def)
  have "rx t2 = RxData (sz # (checksum_sum p # p)) # r" by (simp add: t2_def)
  from read_exact_byte [OF this]
  have b: "read_exact_timeout t2 1 50 = ((1, [sz]), t3)"
    by (simp add: t3_def)
  have "rx t3 = RxData (checksum_sum p # p) # r" by (simp add: t3_def)
  from read_exact_byte [OF this] assms(6)
  have c: "read_exact_timeout t3 1 timeout_ms = ((1, [checksum_sum p]), t4)"
    by (simp add: t4_def)
  have "rx t4 = RxData (p @ []) # r" by (simp add: t4_def)
  from read_exact_chunk [OF this assms(6)]
  have d: "read_exact_timeout t4 (length p) timeout_ms = ((1, p), t5)"
    by (simp add: t5_def)
  have "2 \<le> sz" using assms(7) by (simp add: word_le_nat_alt)
  then have n: "unat ((ucast sz :: size_t) - 2) = length p"
    using assms(7) by (simp add: payload_len_sub)
  have nz: "sz \<noteq> 0" using assms(7) by auto
  have e: "serial_write_all t5 [0x00, SBL_ACK] = (True, t5\<lparr>tx := tx t5 @ [[0x00, SBL_ACK]]\<rparr>)"
    using assms(4) by (simp add: serial_write_all_def t5_def t4_def t3_def t2_def t1_def)
  have "sbl_read_response t2 out_max timeout_ms = (Inr p, t5\<lparr>tx := tx t5 @ [[0x00, SBL_ACK]]\<rparr>)"
    using b c d e n nz assms(8) by (simp add: sbl_read_response_def)
  moreover have "out_max \<noteq> 0" using assms(6,8) by (cases p) auto
  ultimately show ?thesis
    using assms(1,2) w a
    by (auto simp: sbl_send_cmd_def t5_def t4_def t3_def t2_def t1_def SBL_ACK_def)
qed

text \<open>
  Claim C7, as the code has it.  After the acknowledgement, a size byte of 2 or more
  announces \<open>size - 2\<close> payload bytes: a command that returns a payload returns
  exactly that many.  A size byte of 0 is not an error: it stands for "no response",
  the command returns 0 with no payload, and nothing more is read or written.
\<close>

theorem response_payload_length:
  assumes "1 \<le> length data" and "length data \<le> 253"
    and "0 < timeout_ms" and "out_max \<noteq> 0" and "wr t = []"
    and "rx t = RxData [0xCC] # RxData [sz] # r"
  shows "(sz = 0 \<longrightarrow>
            sbl_send_cmd t data out_max timeout_ms =
              (Inr [], t\<lparr>tx := tx t @ [build_frame data], rx := r\<rparr>)) \<and>
         (2 \<le> sz \<longrightarrow>
            (\<forall>p. fst (sbl_send_cmd t data out_max timeout_ms) = Inr p \<longrightarrow>
                 length p = unat sz - 2))"
proof -
  define t1 where "t1 = t\<lparr>tx := tx t @ [build_frame data]\<rparr>"
  define t2 where "t2 = t1\<lparr>rx := RxData [sz] # r\<rparr>"
  define t3 where "t3 = t2\<lparr>rx := r\<rparr>"
  have w: "serial_write_all t (build_frame data) = (True, t1)"
    using assms(5) by (simp add: serial_write_all_def t1_def)
  have "rx t1 = RxData (0xCC # []) # RxData [sz] # r"
    using assms(6) by (simp add: t1_def)
  from wait_ack_sees_ack [OF assms(3) this]
  have a: "sbl_wait_ack t1 timeout_ms = (Inr (), t2)"
    by (simp add: t2_def)
  have "rx t2 = RxData (sz # []) # r" by (simp add: t2_def)
  from read_exact_byte [OF this]
  have b: "read_exact_timeout t2 1 50 = ((1, [sz]), t3)"
    by (simp add: t3_def)
  have s: "sbl_send_cmd t data out_max timeout_ms = sbl_read_response t2 out_max timeout_ms"
    using assms(1,2,4) w a by (auto simp: sbl_send_cmd_def)
  have zero: "sbl_read_response t2 out_max timeout_ms = (Inr [], t3)" if "sz = 0"
    using that b by (simp add: sbl_read_response_def)
  have len: "length p = unat sz - 2"
    if "2 \<le> sz" and p: "fst (sbl_read_response t2 out_max timeout_ms) = Inr p" for p
  proof -
    from that(1) have nz: "sz \<noteq> 0" by auto
    have n: "unat ((ucast sz :: size_t) - 2) = unat sz - 2"
      using that(1) by (rule payload_len_sub)
    obtain r2 csb t4 where c: "read_exact_timeout t3 1 timeout_ms = ((r2, csb), t4)"
      by (metis surj_pair)
    obtain r3 out t5 where d: "read_exact_timeout t4 (unat sz - 2) timeout_ms = ((r3, out), t5)"
      by (metis surj_pair)
    obtain ok t6 where e: "serial_write_all t5 [0x00, SBL_ACK] = (ok, t6)"
      by (metis surj_pair)
    from p b c d e nz n have "0 < r3 \<and> p = out"
      by (cases ok) (auto simp: sbl_read_response_def Let_def split: if_splits)
    with read_exact_timeout_effect(5) [OF d] show ?thesis by simp
  qed
  show ?thesis
    using s zero len by (simp add: t3_def t2_def t1_def)
qed

theorem response_payload_length_witness:
  "sbl_send_cmd \<lparr>rx = [RxData [0xCC], RxData [0x00]], tx = [], wr = []\<rparr> [0x23] 1 500 =
     (Inr [], \<lparr>rx = [], tx = [[3, 0x23, 0x23]], wr = []\<rparr>) \<and>
   fst (sbl_send_cmd \<lparr>rx = [RxData [0xCC], RxData [0x03], RxData [0x40, 0x40]], tx = [], wr = []\<rparr>
          [0x23] 1 500) = Inr [0x40] \<and>
   length [0x40 :: u8] = unat (0x03 :: u8) - 2"
  using response_payload_length
      [of "[0x23]" 500 1 "\<lparr>rx = [RxData [0xCC], RxData [0x00]], tx = [], wr = []\<rparr>" 0 "[]"]
    response_payload_length
      [of "[0x23]" 500 1 "\<lparr>rx = [RxData [0xCC], RxData [0x03], RxData [0x40, 0x40]], tx = [], wr = []\<rparr>"
          3 "[RxData [0x40, 0x40]]"]
  by (simp add: run_simps)

text \<open>
  The claim as the specification words it, that every size byte below 2 fails with a
  protocol error, does not hold: a size byte of 0 gives success, and a size byte of 1
  makes \<^verbatim>\<open>(size_t)sz - 2\<close> wrap, so that the length check fails with
  \<^verbatim>\<open>EMSGSIZE\<close>, not \<^verbatim>\<open>EPROTO\<close>.
\<close>

theorem response_size_below_two_counterexample:
  "fst (sbl_send_cmd \<lparr>rx = [RxData [0xCC], RxData [0x00]], tx = [], wr = []\<rparr> [0x23] 1 500) = Inr [] \<and>
   fst (sbl_send_cmd \<lparr>rx = [RxData [0xCC], RxData [0x01, 0x00]], tx = [], wr = []\<rparr> [0x23] 1 500) =
     Inl EMSGSIZE"
  by (simp add: run_simps)

subsection \<open>Byte order of the 32-bit responses\<close>

lemma bit_u8: "bit (b :: u8) n \<Longrightarrow> n < 8"
  by (drule bit_imp_le_length) simp

lemma bit_ucast_u8: "bit (ucast (b :: u8) :: u32) n \<Longrightarrow> n < 8"
  by (auto simp: bit_simps dest: bit_imp_le_length)

lemma or_push_plus:
  fixes x y :: u32
  assumes "\<And>n. bit x n \<Longrightarrow> n < k"
  shows "x OR push_bit k y = x + push_bit k y"
proof -
  have "\<not> bit x n \<or> \<not> bit (push_bit k y) n" for n
    using assms [of n] by (auto simp: bit_simps)
  from disjunctive_add [of x "push_bit k y", OF this] show ?thesis by simp
qed

lemma le32:
  "(ucast (b0 :: u8) OR push_bit 8 (ucast (b1 :: u8)) OR push_bit 16 (ucast (b2 :: u8)) OR
      push_bit 24 (ucast (b3 :: u8)) :: u32) =
   of_nat (unat b0 + 256 * unat b1 + 65536 * unat b2 + 16777216 * unat b3)"
proof -
  have 1: "(ucast b0 :: u32) OR push_bit 8 (ucast b1) = ucast b0 + push_bit 8 (ucast b1)"
    by (rule or_push_plus) (auto dest: bit_ucast_u8)
  have 2: "(ucast b0 + push_bit 8 (ucast b1) :: u32) OR push_bit 16 (ucast b2) =
           ucast b0 + push_bit 8 (ucast b1) + push_bit 16 (ucast b2)"
    by (rule or_push_plus, fold 1) (auto simp: bit_simps dest!: bit_u8)
  have 3: "(ucast b0 + push_bit 8 (ucast b1) + push_bit 16 (ucast b2) :: u32) OR push_bit 24 (ucast b3) =
           ucast b0 + push_bit 8 (ucast b1) + push_bit 16 (ucast b2) + push_bit 24 (ucast b3)"
    by (rule or_push_plus, fold 2, fold 1) (auto simp: bit_simps dest!: bit_u8)
  have "(ucast b0 OR push_bit 8 (ucast b1) OR push_bit 16 (ucast b2) OR push_bit 24 (ucast b3) :: u32) =
     ((ucast b0 OR push_bit 8 (ucast b1)) OR push_bit 16 (ucast b2)) OR push_bit 24 (ucast b3)"
    by (simp add: or.assoc)
  also have "\<dots> = ucast b0 + push_bit 8 (ucast b1) + push_bit 16 (ucast b2) + push_bit 24 (ucast b3)"
    by (simp only: 1 2 3)
  also have "\<dots> = of_nat (unat b0 + 256 * unat b1 + 65536 * unat b2 + 16777216 * unat b3)"
    by (simp add: push_bit_eq_mult)
  finally show ?thesis .
qed

lemma unat_le32:
  "unat (ucast (b0 :: u8) OR push_bit 8 (ucast (b1 :: u8)) OR push_bit 16 (ucast (b2 :: u8)) OR
      push_bit 24 (ucast (b3 :: u8)) :: u32) =
   unat b0 + 256 * unat b1 + 65536 * unat b2 + 16777216 * unat b3"
proof -
  have "unat b0 < 256" "unat b1 < 256" "unat b2 < 256" "unat b3 < 256"
    using unsigned_less [of b0] unsigned_less [of b1] unsigned_less [of b2] unsigned_less [of b3]
    by simp_all
  then have "unat b0 + 256 * unat b1 + 65536 * unat b2 + 16777216 * unat b3 < 2 ^ 32"
    by simp
  then show ?thesis
    by (simp only: le32 unat_of_nat) simp
qed


lemma unat_be32:
  "unat (push_bit 24 (ucast (b0 :: u8)) OR push_bit 16 (ucast (b1 :: u8)) OR
         push_bit 8 (ucast (b2 :: u8)) OR ucast (b3 :: u8) :: u32) =
   16777216 * unat b0 + 65536 * unat b1 + 256 * unat b2 + unat b3"
proof -
  have "(push_bit 24 (ucast b0) OR push_bit 16 (ucast b1) OR push_bit 8 (ucast b2) OR ucast b3 :: u32) =
        ucast b3 OR push_bit 8 (ucast b2) OR push_bit 16 (ucast b1) OR push_bit 24 (ucast b0)"
    by (simp add: ac_simps)
  then show ?thesis
    by (simp only: unat_le32 add_ac)
qed

text \<open>
  Claim C9.  When the device answers with the four bytes \<open>b0 b1 b2 b3\<close>,
  \<^verbatim>\<open>sbl_get_chip_id\<close> stores the little-endian value (\<open>b0\<close> is the low byte) and
  \<^verbatim>\<open>sbl_crc32\<close> stores the big-endian value (\<open>b0\<close> is the high byte).  For the
  bytes 01 02 03 04 these are \<open>0x04030201\<close> and \<open>0x01020304\<close>.
\<close>

theorem chip_id_little_endian_crc32_big_endian:
  assumes "0 < timeout_ms" and "wr t = []"
    and "rx t = RxData [0xCC] # RxData [6, checksum_sum [b0, b1, b2, b3], b0, b1, b2, b3] # r"
  shows "(\<exists>v. fst (sbl_get_chip_id t timeout_ms old_id) = Inr v \<and>
              unat v = unat b0 + 256 * unat b1 + 65536 * unat b2 + 16777216 * unat b3) \<and>
         (\<exists>v. fst (sbl_crc32 t addr len repeat timeout_ms old_crc) = Inr v \<and>
              unat v = 16777216 * unat b0 + 65536 * unat b1 + 256 * unat b2 + unat b3)"
proof -
  have resp: "sbl_send_cmd t data 4 timeout_ms =
      (Inr [b0, b1, b2, b3], t\<lparr>tx := tx t @ [build_frame data, [0x00, 0xCC]], rx := r\<rparr>)"
    if "1 \<le> length data" and "length data \<le> 253" for data
    using send_cmd_with_response [OF that assms(1,2), of 6 "[b0, b1, b2, b3]" r 4] assms(3)
    by simp
  have "fst (sbl_get_chip_id t timeout_ms old_id) =
          Inr (ucast b0 OR push_bit 8 (ucast b1) OR push_bit 16 (ucast b2) OR push_bit 24 (ucast b3))"
    by (simp add: sbl_get_chip_id_def resp)
  moreover have "fst (sbl_crc32 t addr len repeat timeout_ms old_crc) =
          Inr (push_bit 24 (ucast b0) OR push_bit 16 (ucast b1) OR push_bit 8 (ucast b2) OR ucast b3)"
    by (simp add: sbl_crc32_def resp)
  moreover note unat_le32 [of b0 b1 b2 b3] unat_be32 [of b0 b1 b2 b3]
  ultimately show ?thesis
    by blast
qed

theorem chip_id_little_endian_crc32_big_endian_witness:
  "fst (sbl_get_chip_id
          \<lparr>rx = [RxData [0xCC], RxData [6, 0x0A, 0x01, 0x02, 0x03, 0x04]], tx = [], wr = []\<rparr> 500 0) =
     Inr 0x04030201 \<and>
   fst (sbl_crc32
          \<lparr>rx = [RxData [0xCC], RxData [6, 0x0A, 0x01, 0x02, 0x03, 0x04]], tx = [], wr = []\<rparr>
          0 4 1 500 0) =
     Inr 0x01020304"
proof -
  let ?t = "\<lparr>rx = [RxData [0xCC], RxData [6, 0x0A, 0x01, 0x02, 0x03, 0x04]], tx = [], wr = []\<rparr>"
  have c: "checksum_sum [0x01, 0x02, 0x03, 0x04] = 0x0A"
    by (simp add: checksum_sum_def)
  from chip_id_little_endian_crc32_big_endian [of 500 ?t 1 2 3 4 "[]" 0 0 4 1 0]
  obtain v w where v: "fst (sbl_get_chip_id ?t 500 0) = Inr v" "unat v = 67305985"
    and w: "fst (sbl_crc32 ?t 0 4 1 500 0) = Inr w" "unat w = 16909060"
    by (auto simp: c)
  have "v = of_nat (unat v)" "w = of_nat (unat w)" by simp_all
  then have "v = 0x04030201" "w = 0x01020304"
    unfolding v(2) w(2) by simp_all
  with v(1) w(1) show ?thesis by simp
qed

section \<open>The erase length\<close>

text \<open>The specification's rounding: the least multiple of \<open>m\<close> that is not below \<open>n\<close>.\<close>

definition round_up :: "nat \<Rightarrow> nat \<Rightarrow> nat" where
  "round_up n m = ((n + m - 1) div m) * m"

lemma ucast_pow2: "k < 32 \<Longrightarrow> (ucast (2 ^ k :: u32) :: size_t) = 2 ^ k"
  by (rule bit_word_eqI) (auto simp: bit_simps)

lemma round_up_pow2_bits: "round_up n (2 ^ k) = push_bit k (drop_bit k (n + 2 ^ k - 1))"
  by (simp add: round_up_def push_bit_eq_mult drop_bit_eq_div)

lemma erase_len_rounded_pow2:
  assumes "k < 32"
  shows "erase_len_rounded (2 ^ k) (of_nat n) = of_nat (round_up n (2 ^ k))"
proof -
  have A: "(of_nat n + ucast (2 ^ k :: u32) - 1 :: size_t) = of_nat (n + 2 ^ k - 1)"
  proof -
    have "(1 :: nat) \<le> n + 2 ^ k" by (simp add: trans_le_add2)
    then have "(of_nat (n + 2 ^ k - 1) :: size_t) = of_nat (n + 2 ^ k) - of_nat 1"
      by (rule of_nat_diff)
    then show ?thesis
      using assms by (simp add: ucast_pow2)
  qed
  have B: "(2 ^ k :: u32) - 1 = mask k"
    by (simp add: mask_eq_exp_minus_1)
  show ?thesis
    unfolding erase_len_rounded_def A B round_up_pow2_bits
    by (rule bit_word_eqI) (auto simp: bit_simps)
qed

lemma round_up_pow2_bound:
  "round_up n (2 ^ k) \<le> n + 2 ^ k - 1"
  by (simp add: round_up_def)

lemma unat_erase_len_rounded_pow2:
  assumes "k < 32" and "n + 2 ^ k - 1 < 2 ^ 32"
  shows "unat (erase_len_rounded (2 ^ k) (of_nat n)) = round_up n (2 ^ k)"
proof -
  have "round_up n (2 ^ k) < 2 ^ 32"
    using round_up_pow2_bound [of n k] assms(2) by simp
  then show ?thesis
    by (simp only: erase_len_rounded_pow2 [OF assms(1)] unat_of_nat) simp
qed

lemma erase_len_capped_le:
  "base_addr + erase_len_capped flash_size page_size base_addr erase_len \<le> flash_size - page_size"
  by (simp add: erase_len_capped_def Let_def not_less)

lemma unat_pow2:
  assumes "k < 32"
  shows "unat (2 ^ k :: u32) = 2 ^ k"
proof -
  have "(2 ^ k :: u32) = of_nat (2 ^ k)" by simp
  then have "unat (2 ^ k :: u32) = 2 ^ k mod 2 ^ 32"
    by (simp only: unat_of_nat) simp
  moreover have "(2 :: nat) ^ k < 2 ^ 32"
    by (rule power_strict_increasing [OF assms]) simp
  ultimately show ?thesis by simp
qed

text \<open>
  Claim C3, as the code has it.  The mask \<^verbatim>\<open>~(page_size - 1)\<close> rounds up only for a
  page size that is a power of two, and only while the rounded length fits 32 bits.
  For such a page size \<open>2 ^ k\<close> and an image of \<open>image_len\<close> bytes with
  \<open>image_len + 2 ^ k - 1 < 2 ^ 32\<close>, the erase length is \<open>image_len\<close> rounded up to a
  multiple of the page size (a multiple of it, not below \<open>image_len\<close>, and less than
  a page above it), and it is then replaced by
  \<^verbatim>\<open>(flash_size - page_size) - base_addr\<close> exactly when
  \<^verbatim>\<open>base_addr + erase_len > flash_size - page_size\<close> in 32-bit arithmetic.  For flash
  size \<open>0x20000\<close>, page size \<open>0x1000\<close>, image length \<open>0x1500\<close> and base 0 the
  length is \<open>0x2000\<close> and the cap does not apply.
\<close>

theorem erase_len_rounds_up_then_caps:
  assumes "page_size = 2 ^ k" and "k < 32" and "image_len + 2 ^ k - 1 < 2 ^ 32"
  shows "unat (erase_len_rounded page_size (of_nat image_len)) = round_up image_len (unat page_size) \<and>
         round_up image_len (unat page_size) mod unat page_size = 0 \<and>
         image_len \<le> round_up image_len (unat page_size) \<and>
         round_up image_len (unat page_size) < image_len + unat page_size \<and>
         erase_len_capped flash_size page_size base_addr
             (erase_len_rounded page_size (of_nat image_len)) =
           (if base_addr + erase_len_rounded page_size (of_nat image_len) > flash_size - page_size
            then (flash_size - page_size) - base_addr
            else erase_len_rounded page_size (of_nat image_len))"
proof -
  have u: "unat page_size = 2 ^ k"
    using assms(1,2) by (simp add: unat_pow2)
  have pos: "(0 :: nat) < 2 ^ k" by simp
  have a: "round_up image_len (2 ^ k) mod 2 ^ k = 0"
    by (simp add: round_up_def)
  have b: "image_len \<le> round_up image_len (2 ^ k)"
  proof -
    have "image_len + 2 ^ k - 1 < ((image_len + 2 ^ k - 1) div 2 ^ k + 1) * 2 ^ k"
      using dividend_less_div_times [OF pos, of "image_len + 2 ^ k - 1"] by (simp add: algebra_simps)
    then show ?thesis by (simp add: round_up_def algebra_simps)
  qed
  have c: "round_up image_len (2 ^ k) < image_len + 2 ^ k"
    using round_up_pow2_bound [of image_len k] pos by linarith
  show ?thesis
    unfolding u using a b c unat_erase_len_rounded_pow2 [OF assms(2,3)] assms(1)
    by (simp add: erase_len_capped_def Let_def)
qed

theorem erase_len_rounds_up_then_caps_witness:
  "unat (erase_len_rounded 0x1000 (of_nat 0x1500)) = 0x2000 \<and>
   erase_len_capped 0x20000 0x1000 0 (erase_len_rounded 0x1000 (of_nat 0x1500)) = 0x2000 \<and>
   \<not> (0 + erase_len_rounded 0x1000 (of_nat 0x1500) > (0x20000 :: u32) - 0x1000)"
proof -
  have r: "round_up 0x1500 (unat (0x1000 :: u32)) = 0x2000"
    by (simp add: round_up_def)
  have e: "erase_len_rounded 0x1000 (of_nat 0x1500) = 0x2000"
    using erase_len_rounds_up_then_caps [of "0x1000" 12 "0x1500" "0x20000" 0] r
    by (simp add: word_unat_eq_iff)
  show ?thesis
    using erase_len_rounds_up_then_caps [of "0x1000" 12 "0x1500" "0x20000" 0] r e
    by simp
qed

text \<open>
  For a page size that is not a power of two the mask does not round up: with page
  size 3 and a one-byte image the erase length is 1, not 3.
\<close>

theorem erase_len_any_page_size_counterexample:
  "unat (erase_len_capped 0x20000 3 0 (erase_len_rounded 3 (of_nat 1))) = 1 \<and>
   round_up 1 (unat (3 :: u32)) = 3"
  by (simp add: erase_len_capped_def erase_len_rounded_def round_up_def)

section \<open>The write log of a workflow\<close>

text \<open>
  What a run has sent is read off the write log.  The opcode of a frame is its third
  byte (the first byte of the payload); the two-byte acknowledgement of a response has
  none.  A sector-erase frame (7 bytes) carries its address in bytes 3 to 6, high byte
  first; a send-data frame carries its chunk from byte 3 on.  \<open>tx_since t t'\<close> is
  what was written between the states \<open>t\<close> and \<open>t'\<close> of one run.
\<close>

fun frame_opcode :: "u8 list \<Rightarrow> u8 option" where
  "frame_opcode (sz # cs # opc # rest) = Some opc"
| "frame_opcode _ = None"

definition frames_with :: "u8 \<Rightarrow> u8 list list \<Rightarrow> u8 list list" where
  "frames_with opcode log = filter (\<lambda>fr. frame_opcode fr = Some opcode) log"

definition frame_addr :: "u8 list \<Rightarrow> u32" where
  "frame_addr fr =
     push_bit 24 (ucast (fr ! 3)) OR push_bit 16 (ucast (fr ! 4)) OR
     push_bit 8 (ucast (fr ! 5)) OR ucast (fr ! 6)"

definition tx_since :: "transport \<Rightarrow> transport \<Rightarrow> u8 list list" where
  "tx_since t t' = drop (length (tx t)) (tx t')"

lemma frames_with_append [simp]:
  "frames_with c (xs @ ys) = frames_with c xs @ frames_with c ys"
  by (simp add: frames_with_def)

lemma frames_with_Nil [simp]: "frames_with c [] = []"
  by (simp add: frames_with_def)

lemma frames_with_frame [simp]:
  "frames_with c [build_frame (d # ds)] = (if c = d then [build_frame (d # ds)] else [])"
  by (auto simp: frames_with_def build_frame_def)

lemma frames_with_ack [simp]: "frames_with c [[0, 0xCC]] = []"
  by (simp add: frames_with_def)

lemma be32_roundtrip:
  "push_bit 24 (ucast (ucast (drop_bit 24 a) :: u8)) OR
   push_bit 16 (ucast (ucast (drop_bit 16 a) :: u8)) OR
   push_bit 8 (ucast (ucast (drop_bit 8 a) :: u8)) OR ucast (ucast a :: u8) = (a :: u32)"
proof (rule bit_word_eqI)
  fix n
  assume "n < LENGTH(32)"
  then consider "n < 8" | "8 \<le> n" "n < 16" | "16 \<le> n" "n < 24" | "24 \<le> n" "n < 32"
    by fastforce
  then show "bit (push_bit 24 (ucast (ucast (drop_bit 24 a) :: u8)) OR
                  push_bit 16 (ucast (ucast (drop_bit 16 a) :: u8)) OR
                  push_bit 8 (ucast (ucast (drop_bit 8 a) :: u8)) OR ucast (ucast a :: u8) :: u32) n =
             bit a n"
    by cases (auto simp: bit_simps)
qed

lemma frame_addr_sector_erase:
  "frame_addr (build_frame [CMD_SECTOR_ERASE, ucast (drop_bit 24 a), ucast (drop_bit 16 a),
                            ucast (drop_bit 8 a), ucast a]) = a"
  by (simp add: frame_addr_def build_frame_def be32_roundtrip)

lemma send_cmd_log:
  assumes "sbl_send_cmd t (d # ds) out_max to = (r, t')" and "length ds \<le> 252"
  shows "\<exists>new. tx t' = tx t @ new \<and>
           (\<forall>c. frames_with c new = (if c = d then [build_frame (d # ds)] else []))"
proof -
  from sbl_send_cmd_effect(1) [OF assms(1)] assms(2)
  consider "tx t' = tx t @ [build_frame (d # ds)]"
    | "tx t' = tx t @ ([build_frame (d # ds)] @ [[0, 0xCC]])"
    by (auto simp: SBL_ACK_def)
  then show ?thesis
  proof cases
    case 1
    then show ?thesis
      by (intro exI [of _ "[build_frame (d # ds)]"]) simp
  next
    case 2
    then show ?thesis
      by (intro exI [of _ "[build_frame (d # ds)] @ [[0, 0xCC]]"])
        (simp only: frames_with_append frames_with_frame frames_with_ack, simp)
  qed
qed

lemma get_status_log:
  assumes "sbl_get_status t to st = (r, t')"
  shows "\<exists>new. tx t' = tx t @ new \<and>
           (\<forall>c. c \<noteq> CMD_GET_STATUS \<longrightarrow> frames_with c new = [])"
proof -
  obtain r1 t1 where s: "sbl_send_cmd t [CMD_GET_STATUS] 1 to = (r1, t1)"
    by (metis surj_pair)
  with assms have "t' = t1"
    by (auto simp: sbl_get_status_def split: sum.splits)
  with send_cmd_log [OF s] show ?thesis by auto
qed

lemma sector_erase_log:
  assumes "sbl_sector_erase t a to = (r, t')"
  shows "\<exists>new. tx t' = tx t @ new \<and>
           (\<forall>c. c \<noteq> CMD_SECTOR_ERASE \<longrightarrow> frames_with c new = []) \<and>
           (\<forall>fr \<in> set (frames_with CMD_SECTOR_ERASE new). frame_addr fr = a)"
proof -
  from send_cmd_log [OF assms [unfolded sbl_sector_erase_def]]
  obtain new where n: "tx t' = tx t @ new"
    "\<And>c. frames_with c new =
       (if c = CMD_SECTOR_ERASE
        then [build_frame [CMD_SECTOR_ERASE, ucast (drop_bit 24 a), ucast (drop_bit 16 a),
                           ucast (drop_bit 8 a), ucast a]]
        else [])"
    by auto
  show ?thesis
    by (rule exI [of _ new]) (simp add: n frame_addr_sector_erase)
qed

lemma erase_loop_log:
  "erase_loop t a lim page_size = (r, t') \<Longrightarrow>
     \<exists>new. tx t' = tx t @ new \<and>
       (\<forall>c. c \<noteq> CMD_GET_STATUS \<longrightarrow> c \<noteq> CMD_SECTOR_ERASE \<longrightarrow> frames_with c new = []) \<and>
       (\<forall>fr \<in> set (frames_with CMD_SECTOR_ERASE new). frame_addr fr < lim) \<and>
       (\<forall>e. r = Inl e \<longrightarrow> (\<exists>x. e = Erase_failed x \<or> e = Status_after_erase_failed x))"
proof (induction t a lim page_size rule: erase_loop.induct)
  case (1 t a lim page_size)
  note unf = erase_loop.simps [of t a lim page_size]
  show ?case
  proof (cases "a < lim")
    case False
    with "1.prems" unf have "t' = t" "r = Inr ()" by simp_all
    then show ?thesis by (intro exI [of _ "[]"]) simp
  next
    case True
    obtain r1 t1 where e: "sbl_sector_erase t a 5000 = (r1, t1)" by (metis surj_pair)
    from sector_erase_log [OF e] obtain n1 where n1: "tx t1 = tx t @ n1"
      "\<And>c. c \<noteq> CMD_SECTOR_ERASE \<Longrightarrow> frames_with c n1 = []"
      "\<And>fr. fr \<in> set (frames_with CMD_SECTOR_ERASE n1) \<Longrightarrow> frame_addr fr = a"
      by blast
    show ?thesis
    proof (cases "r1 = Inr []")
      case False
      with True e "1.prems" unf have "t' = t1" "r = Inl (Erase_failed a)" by simp_all
      with n1 True show ?thesis by (intro exI [of _ n1]) auto
    next
      case ok: True
      obtain r2 t2 where s: "sbl_get_status t1 1000 0 = (r2, t2)" by (metis surj_pair)
      from get_status_log [OF s] obtain n2 where n2: "tx t2 = tx t1 @ n2"
        "\<And>c. c \<noteq> CMD_GET_STATUS \<Longrightarrow> frames_with c n2 = []"
        by blast
      have ne: "CMD_SECTOR_ERASE \<noteq> CMD_GET_STATUS"
        by (simp add: CMD_SECTOR_ERASE_def CMD_GET_STATUS_def)
      show ?thesis
      proof (cases r2)
        case (Inl err)
        with True e ok s "1.prems" unf have "t' = t2" "r = Inl (Status_after_erase_failed a)"
          by simp_all
        with n1 n2 True ne show ?thesis by (intro exI [of _ "n1 @ n2"]) auto
      next
        case (Inr st)
        with True e ok s "1.prems" unf
        have rec: "erase_loop t2 (a + page_size) lim page_size = (r, t')" by simp
        from "1.IH" [OF True e [symmetric] _ s [symmetric] Inr rec] ok
        obtain n3 where n3: "tx t' = tx t2 @ n3"
          "\<And>c. c \<noteq> CMD_GET_STATUS \<Longrightarrow> c \<noteq> CMD_SECTOR_ERASE \<Longrightarrow> frames_with c n3 = []"
          "\<And>fr. fr \<in> set (frames_with CMD_SECTOR_ERASE n3) \<Longrightarrow> frame_addr fr < lim"
          "\<And>e. r = Inl e \<Longrightarrow> \<exists>x. e = Erase_failed x \<or> e = Status_after_erase_failed x"
          by auto
        show ?thesis
          using n1 n2 n3 True ne by (intro exI [of _ "n1 @ n2 @ n3"]) auto
      qed
    qed
  qed
qed

subsection \<open>Chunks\<close>

text \<open>
  The specification's view of the transfer: the image, padded with \<open>0xFF\<close> to the
  announced length, cut into pieces of 252 bytes (the last one may be shorter).
\<close>

function chunks_of :: "nat \<Rightarrow> 'a list \<Rightarrow> 'a list list" where
  "chunks_of n xs = (if n = 0 \<or> xs = [] then [] else take n xs # chunks_of n (drop n xs))"
  by pat_completeness auto
termination
  by (relation "measure (\<lambda>(n, xs). length xs)") auto

declare chunks_of.simps [simp del]

definition padded_image :: "u8 list \<Rightarrow> nat \<Rightarrow> u8 list" where
  "padded_image img total_len = img @ replicate (total_len - length img) 0xFF"

lemma chunk_buf:
  assumes "off < total_len" and "off \<le> length img" and "length img \<le> total_len"
  shows "take (if off + (if total_len - off > 252 then 252 else total_len - off) > length img
               then length img - off
               else (if total_len - off > 252 then 252 else total_len - off))
           (drop off img) @
         replicate ((if total_len - off > 252 then 252 else total_len - off) -
                    (if off + (if total_len - off > 252 then 252 else total_len - off) > length img
                     then length img - off
                     else (if total_len - off > 252 then 252 else total_len - off))) 0xFF =
         take 252 (drop off (padded_image img total_len))"
  using assms by (auto simp: padded_image_def min_def)

lemma send_data_log:
  assumes "sbl_send_data t buf to = (r, t')"
  shows "\<exists>new. tx t' = tx t @ new \<and>
           (\<forall>c. c \<noteq> CMD_SEND_DATA \<longrightarrow> frames_with c new = []) \<and>
           (r = Inr [] \<longrightarrow> map (drop 3) (frames_with CMD_SEND_DATA new) = [buf])"
proof (cases "length buf = 0 \<or> length buf > 252")
  case True
  with assms have "t' = t" "r = Inl EINVAL" by (auto simp: sbl_send_data_def)
  then show ?thesis by (intro exI [of _ "[]"]) simp
next
  case False
  with assms have s: "sbl_send_cmd t (CMD_SEND_DATA # buf) 0 to = (r, t')"
    by (auto simp: sbl_send_data_def)
  from False have "length buf \<le> 252" by simp
  from send_cmd_log [OF s this] obtain new where n: "tx t' = tx t @ new"
    "\<And>c. frames_with c new = (if c = CMD_SEND_DATA then [build_frame (CMD_SEND_DATA # buf)] else [])"
    by auto
  show ?thesis
    by (rule exI [of _ new]) (simp add: n build_frame_def)
qed

lemma chunks_of_step:
  assumes "off < length xs" and "0 < n"
  shows "chunks_of n (drop off xs) = take n (drop off xs) # chunks_of n (drop (off + n) xs)"
  using assms by (subst chunks_of.simps) (simp add: add.commute)

lemma chunks_of_Nil [simp]: "chunks_of n [] = []"
  by (subst chunks_of.simps) simp

lemma chunks_of_end: "length xs \<le> off \<Longrightarrow> chunks_of n (drop off xs) = []"
  by simp

lemma length_padded_image: "length img \<le> total_len \<Longrightarrow> length (padded_image img total_len) = total_len"
  by (simp add: padded_image_def)

lemma transfer_loop_log:
  "transfer_loop t img total_len off = (r, t') \<Longrightarrow> length img \<le> total_len \<Longrightarrow>
     \<exists>new. tx t' = tx t @ new \<and>
       (\<forall>c. c \<noteq> CMD_GET_STATUS \<longrightarrow> c \<noteq> CMD_SEND_DATA \<longrightarrow> frames_with c new = []) \<and>
       (r = Inr () \<longrightarrow>
          map (drop 3) (frames_with CMD_SEND_DATA new) =
            chunks_of 252 (drop off (padded_image img total_len)))"
proof (induction "total_len - off" arbitrary: t off rule: less_induct)
  case less
  note unf = transfer_loop.simps [of t img total_len off]
  let ?P = "padded_image img total_len"
  have lenP: "length ?P = total_len" using less.prems(2) by (rule length_padded_image)
  show ?case
  proof (cases "off < total_len")
    case False
    with less.prems unf have "t' = t" "r = Inr ()" by simp_all
    moreover from False lenP have "chunks_of 252 (drop off ?P) = []"
      by simp
    ultimately show ?thesis by (intro exI [of _ "[]"]) simp
  next
    case True
    define chunk_len where "chunk_len = (if total_len - off > 252 then 252 else total_len - off)"
    define copy_len where
      "copy_len = (if off + chunk_len > length img then length img - off else chunk_len)"
    define buf where
      "buf = take copy_len (drop off img) @ replicate (chunk_len - copy_len) (0xFF :: u8)"
    have cl: "0 < chunk_len" "chunk_len \<le> 252" "off + chunk_len \<le> total_len"
      using True by (auto simp: chunk_len_def)
    show ?thesis
    proof (cases "off + chunk_len > length img \<and> length img < off")
      case trap: True
      have "transfer_loop t img total_len off = (Inl (Trap_copy_overrun off), t)"
        apply (subst unf)
        apply (unfold Let_def)
        apply (fold chunk_len_def)
        apply (simp add: True trap [simplified])
        done
      with less.prems have "t' = t" "r = Inl (Trap_copy_overrun off)"
        by simp_all
      then show ?thesis by (intro exI [of _ "[]"]) simp
    next
      case notrap: False
      then have off_le: "off \<le> length img" using cl by linarith
      have bufP: "buf = take 252 (drop off ?P)"
        unfolding buf_def copy_len_def chunk_len_def
        using chunk_buf [OF True off_le less.prems(2)] .
      obtain r1 t1 where sd: "sbl_send_data t buf 1000 = (r1, t1)" by (metis surj_pair)
      from send_data_log [OF sd] obtain n1 where n1: "tx t1 = tx t @ n1"
        "\<And>c. c \<noteq> CMD_SEND_DATA \<Longrightarrow> frames_with c n1 = []"
        "r1 = Inr [] \<Longrightarrow> map (drop 3) (frames_with CMD_SEND_DATA n1) = [buf]"
        by auto
      have step: "transfer_loop t img total_len off =
         (if r1 \<noteq> Inr [] then (Inl (Send_data_failed off), t1)
          else case sbl_get_status t1 500 0 of
                 (Inl e, t2) \<Rightarrow> (Inl (Status_failed_after off), t2)
               | (Inr st, t2) \<Rightarrow>
                   if st \<noteq> 0x40 then (Inl (Prog_status_not_success st off), t2)
                   else transfer_loop t2 img total_len (off + chunk_len))"
        apply (subst unf)
        apply (unfold Let_def)
        apply (fold chunk_len_def)
        apply (fold copy_len_def)
        apply (fold buf_def)
        apply (simp add: True off_le [THEN leD] sd)
        done
      show ?thesis
      proof (cases "r1 = Inr []")
        case False
        with step less.prems have "t' = t1" "r = Inl (Send_data_failed off)" by simp_all
        with n1 show ?thesis by (intro exI [of _ n1]) auto
      next
        case ok: True
        obtain r2 t2 where gs: "sbl_get_status t1 500 0 = (r2, t2)" by (metis surj_pair)
        from get_status_log [OF gs] obtain n2 where n2: "tx t2 = tx t1 @ n2"
          "\<And>c. c \<noteq> CMD_GET_STATUS \<Longrightarrow> frames_with c n2 = []"
          by blast
        have ne: "CMD_SEND_DATA \<noteq> CMD_GET_STATUS"
          by (simp add: CMD_SEND_DATA_def CMD_GET_STATUS_def)
        show ?thesis
        proof (cases r2)
          case (Inl err)
          with step ok gs less.prems have "t' = t2" "r = Inl (Status_failed_after off)"
            by simp_all
          with n1 n2 ne show ?thesis by (intro exI [of _ "n1 @ n2"]) auto
        next
          case (Inr st)
          show ?thesis
          proof (cases "st = 0x40")
            case False
            with step ok gs Inr less.prems
            have "t' = t2" "r = Inl (Prog_status_not_success st off)" by simp_all
            with n1 n2 ne show ?thesis by (intro exI [of _ "n1 @ n2"]) auto
          next
            case st: True
            with step ok gs Inr less.prems
            have rec: "transfer_loop t2 img total_len (off + chunk_len) = (r, t')" by simp
            have "total_len - (off + chunk_len) < total_len - off"
              using True cl by linarith
            from less.hyps [OF this rec less.prems(2)]
            obtain n3 where n3: "tx t' = tx t2 @ n3"
              "\<And>c. c \<noteq> CMD_GET_STATUS \<Longrightarrow> c \<noteq> CMD_SEND_DATA \<Longrightarrow> frames_with c n3 = []"
              "r = Inr () \<Longrightarrow> map (drop 3) (frames_with CMD_SEND_DATA n3) =
                  chunks_of 252 (drop (off + chunk_len) ?P)"
              by auto
            have tail: "chunks_of 252 (drop (off + chunk_len) ?P) = chunks_of 252 (drop (off + 252) ?P)"
            proof (cases "chunk_len = 252")
              case True
              then show ?thesis by simp
            next
              case False
              then have "off + chunk_len = total_len"
                using True by (simp add: chunk_len_def split: if_splits)
              then show ?thesis using lenP cl(2) by simp
            qed
            have "chunks_of 252 (drop off ?P) = buf # chunks_of 252 (drop (off + chunk_len) ?P)"
              using chunks_of_step [of off ?P 252] True lenP bufP tail by simp
            with n1 n2 n3 ne ok show ?thesis
              by (intro exI [of _ "n1 @ n2 @ n3"]) auto
          qed
        qed
      qed
    qed
  qed
qed

lemma transfer_loop_errors:
  "transfer_loop t img total_len off = (Inl e, t') \<Longrightarrow>
     \<exists>x. off \<le> x \<and> x < total_len \<and> (x - off) mod 252 = 0 \<and>
       (e = Send_data_failed x \<or> e = Status_failed_after x \<or>
        (\<exists>st. e = Prog_status_not_success st x) \<or>
        (e = Trap_copy_overrun x \<and> length img < x))"
proof (induction "total_len - off" arbitrary: t off rule: less_induct)
  case less
  note unf = transfer_loop.simps [of t img total_len off]
  show ?case
  proof (cases "off < total_len")
    case False
    with less.prems unf show ?thesis by simp
  next
    case True
    define chunk_len where "chunk_len = (if total_len - off > 252 then 252 else total_len - off)"
    define copy_len where
      "copy_len = (if off + chunk_len > length img then length img - off else chunk_len)"
    define buf where
      "buf = take copy_len (drop off img) @ replicate (chunk_len - copy_len) (0xFF :: u8)"
    show ?thesis
    proof (cases "off + chunk_len > length img \<and> length img < off")
      case trap: True
      have "transfer_loop t img total_len off = (Inl (Trap_copy_overrun off), t)"
        apply (subst unf)
        apply (unfold Let_def)
        apply (fold chunk_len_def)
        apply (simp add: True trap [simplified])
        done
      with less.prems have "e = Trap_copy_overrun off" by simp
      with trap True show ?thesis by (intro exI [of _ off]) simp
    next
      case notrap: False
      then have off_le: "off \<le> length img" by linarith
      obtain r1 t1 where sd: "sbl_send_data t buf 1000 = (r1, t1)" by (metis surj_pair)
      have step: "transfer_loop t img total_len off =
         (if r1 \<noteq> Inr [] then (Inl (Send_data_failed off), t1)
          else case sbl_get_status t1 500 0 of
                 (Inl e, t2) \<Rightarrow> (Inl (Status_failed_after off), t2)
               | (Inr st, t2) \<Rightarrow>
                   if st \<noteq> 0x40 then (Inl (Prog_status_not_success st off), t2)
                   else transfer_loop t2 img total_len (off + chunk_len))"
        apply (subst unf)
        apply (unfold Let_def)
        apply (fold chunk_len_def)
        apply (fold copy_len_def)
        apply (fold buf_def)
        apply (simp add: True off_le [THEN leD] sd)
        done
      show ?thesis
      proof (cases "r1 = Inr []")
        case False
        with step less.prems have "e = Send_data_failed off" by simp
        with True show ?thesis by (intro exI [of _ off]) simp
      next
        case ok: True
        obtain r2 t2 where gs: "sbl_get_status t1 500 0 = (r2, t2)" by (metis surj_pair)
        show ?thesis
        proof (cases r2)
          case (Inl err)
          with step ok gs less.prems have "e = Status_failed_after off" by simp
          with True show ?thesis by (intro exI [of _ off]) simp
        next
          case (Inr st)
          show ?thesis
          proof (cases "st = 0x40")
            case False
            with step ok gs Inr less.prems have "e = Prog_status_not_success st off" by simp
            with True show ?thesis by (intro exI [of _ off]) simp
          next
            case st: True
            with step ok gs Inr less.prems
            have rec: "transfer_loop t2 img total_len (off + chunk_len) = (Inl e, t')" by simp
            have "total_len - (off + chunk_len) < total_len - off"
              using True by (auto simp: chunk_len_def)
            from less.hyps [OF this rec]
            obtain x where xx: "off + chunk_len \<le> x \<and> x < total_len \<and>
                (x - (off + chunk_len)) mod 252 = 0 \<and>
                (e = Send_data_failed x \<or> e = Status_failed_after x \<or>
                    (\<exists>st. e = Prog_status_not_success st x) \<or>
                    (e = Trap_copy_overrun x \<and> length img < x))" ..
            note x = xx [THEN conjunct1] xx [THEN conjunct2, THEN conjunct1]
              xx [THEN conjunct2, THEN conjunct2, THEN conjunct1]
              xx [THEN conjunct2, THEN conjunct2, THEN conjunct2]
            from x(1,2) have c: "chunk_len = 252"
              using True by (simp add: chunk_len_def split: if_splits)
            have "off \<le> x" using x(1) by simp
            moreover have "(x - off) mod 252 = 0"
            proof -
              have "x - off = (x - (off + 252)) + 252"
                using x(1) c by simp
              then have "(x - off) mod 252 = (x - (off + 252)) mod 252"
                by (simp only: mod_add_self2)
              with x(3) c show ?thesis by simp
            qed
            ultimately have "off \<le> x \<and> x < total_len \<and> (x - off) mod 252 = 0 \<and>
                (e = Send_data_failed x \<or> e = Status_failed_after x \<or>
                    (\<exists>st. e = Prog_status_not_success st x) \<or>
                    (e = Trap_copy_overrun x \<and> length img < x))"
              using x(2,4) by (intro conjI)
            then show ?thesis ..
          qed
        qed
      qed
    qed
  qed
qed

lemma download_log:
  assumes "sbl_download t a n to = (r, t')"
  shows "\<exists>new. tx t' = tx t @ new \<and> (\<forall>c. c \<noteq> CMD_DOWNLOAD \<longrightarrow> frames_with c new = [])"
  using send_cmd_log [OF assms [unfolded sbl_download_def]] by auto

lemma reset_log:
  assumes "sbl_reset t to = (r, t')"
  shows "\<exists>new. tx t' = tx t @ new \<and> (\<forall>c. c \<noteq> CMD_RESET \<longrightarrow> frames_with c new = [])"
  using send_cmd_log [OF assms [unfolded sbl_reset_def]] by auto

lemma total_len_of_ge: "n \<le> total_len_of n"
  unfolding total_len_of_def Let_def by presburger

lemma cmd_distinct:
  "CMD_SECTOR_ERASE \<noteq> CMD_GET_STATUS" "CMD_SECTOR_ERASE \<noteq> CMD_SEND_DATA"
  "CMD_SECTOR_ERASE \<noteq> CMD_DOWNLOAD" "CMD_SECTOR_ERASE \<noteq> CMD_RESET"
  "CMD_SEND_DATA \<noteq> CMD_GET_STATUS" "CMD_SEND_DATA \<noteq> CMD_SECTOR_ERASE"
  "CMD_SEND_DATA \<noteq> CMD_DOWNLOAD" "CMD_SEND_DATA \<noteq> CMD_RESET"
  "CMD_DOWNLOAD \<noteq> CMD_GET_STATUS" "CMD_DOWNLOAD \<noteq> CMD_SECTOR_ERASE"
  "CMD_DOWNLOAD \<noteq> CMD_SEND_DATA" "CMD_DOWNLOAD \<noteq> CMD_RESET"
  by (simp_all add: cmd_simps)

text \<open>The two results that stand for undefined behaviour of the C program.\<close>

definition is_trap :: "prog_error \<Rightarrow> bool" where
  "is_trap e = (case e of Trap_div_by_zero \<Rightarrow> True | Trap_copy_overrun x \<Rightarrow> True | _ \<Rightarrow> False)"

lemma no_copy_overrun:
  assumes "x < total_len_of n" and "x mod 252 = 0"
  shows "\<not> n < x"
proof
  assume "n < x"
  have "(4 :: nat) dvd 252" by simp
  then have "x mod 252 mod 4 = x mod 4" by (rule mod_mod_cancel)
  with assms(2) have "x mod 4 = 0" by simp
  with \<open>n < x\<close> assms(1) show False
    unfolding total_len_of_def Let_def by presburger
qed

subsection \<open>The whole workflow\<close>

lemma program_binary_log:
  assumes run: "sbl_program_binary t flash_size page_size img base_addr = (r, t')"
  defines "lim \<equiv> base_addr + erase_len_capped flash_size page_size base_addr
                      (erase_len_rounded page_size (of_nat (length img)))"
  shows "\<exists>new. tx t' = tx t @ new \<and>
      (\<forall>fr \<in> set (frames_with CMD_SECTOR_ERASE new). frame_addr fr < lim) \<and>
      (r = Inr () \<longrightarrow>
         map (drop 3) (frames_with CMD_SEND_DATA new) =
           chunks_of 252 (padded_image img (total_len_of (length img)))) \<and>
      (\<forall>e. r = Inl e \<longrightarrow> is_trap e \<longrightarrow> page_size = 0)"
proof (cases "page_size = 0 \<or> base_addr mod page_size \<noteq> 0")
  case True
  with run have "t' = t" "r = Inl Trap_div_by_zero \<and> page_size = 0 \<or> r = Inl Not_page_aligned"
    by (auto simp: sbl_program_binary_def split: if_splits)
  then show ?thesis
    by (intro exI [of _ "[]"]) (auto simp: is_trap_def)
next
  case False
  define total where "total = total_len_of (length img)"
  obtain r1 t1 where e1: "erase_loop t base_addr lim page_size = (r1, t1)" by (metis surj_pair)
  obtain r2 t2 where e2: "sbl_download t1 base_addr (of_nat total) 1000 = (r2, t2)"
    by (metis surj_pair)
  obtain r3 t3 where e3: "sbl_get_status t2 500 0 = (r3, t3)" by (metis surj_pair)
  obtain r4 t4 where e4: "transfer_loop t3 img total 0 = (r4, t4)" by (metis surj_pair)
  obtain r5 t5 where e5: "sbl_reset t4 1000 = (r5, t5)" by (metis surj_pair)
  have unf: "(r, t') =
     (case erase_loop t base_addr lim page_size of
        (Inl e, t1) \<Rightarrow> (Inl e, t1)
      | (Inr u, t1) \<Rightarrow>
          (case sbl_download t1 base_addr (of_nat total) 1000 of
             (r, t2) \<Rightarrow>
               if r \<noteq> Inr [] then (Inl Download_failed, t2)
               else
                 (case sbl_get_status t2 500 0 of
                    (Inl e, t3) \<Rightarrow> (Inl Status_after_download_failed, t3)
                  | (Inr st, t3) \<Rightarrow>
                      if st \<noteq> 0x40 then (Inl (Download_rejected st), t3)
                      else
                        (case transfer_loop t3 img total 0 of
                           (Inl e, t4) \<Rightarrow> (Inl e, t4)
                         | (Inr u, t4) \<Rightarrow> (Inr (), snd (sbl_reset t4 1000))))))"
    using run [symmetric] False
    unfolding sbl_program_binary_def Let_def lim_def [symmetric] total_def [symmetric]
    by simp
  from erase_loop_log [OF e1] obtain n1 where n1: "tx t1 = tx t @ n1"
    "\<And>c. c \<noteq> CMD_GET_STATUS \<Longrightarrow> c \<noteq> CMD_SECTOR_ERASE \<Longrightarrow> frames_with c n1 = []"
    "\<And>fr. fr \<in> set (frames_with CMD_SECTOR_ERASE n1) \<Longrightarrow> frame_addr fr < lim"
    "\<And>e. r1 = Inl e \<Longrightarrow> \<exists>x. e = Erase_failed x \<or> e = Status_after_erase_failed x"
    by auto
  from download_log [OF e2] obtain n2 where n2: "tx t2 = tx t1 @ n2"
    "\<And>c. c \<noteq> CMD_DOWNLOAD \<Longrightarrow> frames_with c n2 = []"
    by auto
  from get_status_log [OF e3] obtain n3 where n3: "tx t3 = tx t2 @ n3"
    "\<And>c. c \<noteq> CMD_GET_STATUS \<Longrightarrow> frames_with c n3 = []"
    by auto
  have le: "length img \<le> total" by (simp add: total_def total_len_of_ge)
  from transfer_loop_log [OF e4 le] obtain n4 where n4: "tx t4 = tx t3 @ n4"
    "\<And>c. c \<noteq> CMD_GET_STATUS \<Longrightarrow> c \<noteq> CMD_SEND_DATA \<Longrightarrow> frames_with c n4 = []"
    "r4 = Inr () \<Longrightarrow> map (drop 3) (frames_with CMD_SEND_DATA n4) =
        chunks_of 252 (padded_image img total)"
    by auto
  from reset_log [OF e5] obtain n5 where n5: "tx t5 = tx t4 @ n5"
    "\<And>c. c \<noteq> CMD_RESET \<Longrightarrow> frames_with c n5 = []"
    by auto
  have notrap4: "\<not> is_trap e" if "r4 = Inl e" for e
  proof -
    from transfer_loop_errors [OF e4 [unfolded that]]
    obtain x where xx: "0 \<le> x \<and> x < total \<and> (x - 0) mod 252 = 0 \<and>
      (e = Send_data_failed x \<or> e = Status_failed_after x \<or>
       (\<exists>st. e = Prog_status_not_success st x) \<or> (e = Trap_copy_overrun x \<and> length img < x))" ..
    from xx have a: "x < total_len_of (length img)" by (simp add: total_def)
    from xx have b: "x mod 252 = 0" by simp
    from xx have c: "e = Send_data_failed x \<or> e = Status_failed_after x \<or>
       (\<exists>st. e = Prog_status_not_success st x) \<or> (e = Trap_copy_overrun x \<and> length img < x)"
      by (elim conjE)
    from no_copy_overrun [OF a b] c show ?thesis by (auto simp: is_trap_def)
  qed
  have notrap1: "\<not> is_trap e" if "r1 = Inl e" for e
    using n1(4) [OF that] by (auto simp: is_trap_def)
  note d = cmd_distinct
  show ?thesis
  proof (cases r1)
    case (Inl e)
    with unf e1 have "t' = t1" "r = Inl e" by simp_all
    with n1 notrap1 [OF Inl] show ?thesis
      by (intro exI [of _ n1]) auto
  next
    case ok1: (Inr u)
    show ?thesis
    proof (cases "r2 = Inr []")
      case False
      with unf e1 e2 ok1 have "t' = t2" "r = Inl Download_failed" by simp_all
      with n1 n2 d show ?thesis
        by (intro exI [of _ "n1 @ n2"]) (auto simp: is_trap_def)
    next
      case ok2: True
      show ?thesis
      proof (cases r3)
        case (Inl e)
        with unf e1 e2 e3 ok1 ok2 have "t' = t3" "r = Inl Status_after_download_failed" by simp_all
        with n1 n2 n3 d show ?thesis
          by (intro exI [of _ "n1 @ n2 @ n3"]) (auto simp: is_trap_def)
      next
        case ok3: (Inr st)
        show ?thesis
        proof (cases "st = 0x40")
          case False
          with unf e1 e2 e3 ok1 ok2 ok3 have "t' = t3" "r = Inl (Download_rejected st)" by simp_all
          with n1 n2 n3 d show ?thesis
            by (intro exI [of _ "n1 @ n2 @ n3"]) (auto simp: is_trap_def)
        next
          case st: True
          show ?thesis
          proof (cases r4)
            case (Inl e)
            with unf e1 e2 e3 e4 ok1 ok2 ok3 st have "t' = t4" "r = Inl e" by simp_all
            with n1 n2 n3 n4 d notrap4 [OF Inl] show ?thesis
              by (intro exI [of _ "n1 @ n2 @ n3 @ n4"]) auto
          next
            case ok4: (Inr u4)
            with unf e1 e2 e3 e4 e5 ok1 ok2 ok3 st have "t' = t5" "r = Inr ()" by simp_all
            with n1 n2 n3 n4 n5 d ok4 show ?thesis
              by (intro exI [of _ "n1 @ n2 @ n3 @ n4 @ n5"]) (auto simp: total_def)
          qed
        qed
      qed
    qed
  qed
qed

text \<open>
  What one run of \<^verbatim>\<open>sbl_program_binary\<close> has sent: the chunks of its send-data frames
  and the addresses of its sector-erase frames, in order, read off the part of the
  write log that the run added.
\<close>

definition sent_chunks :: "transport \<Rightarrow> transport \<Rightarrow> u8 list list" where
  "sent_chunks t t' = map (drop 3) (frames_with CMD_SEND_DATA (tx_since t t'))"

definition erased_addrs :: "transport \<Rightarrow> transport \<Rightarrow> u32 list" where
  "erased_addrs t t' = map frame_addr (frames_with CMD_SECTOR_ERASE (tx_since t t'))"

lemma tx_since_append: "tx t' = tx t @ new \<Longrightarrow> tx_since t t' = new"
  by (simp add: tx_since_def)

lemma concat_chunks_of: "0 < n \<Longrightarrow> concat (chunks_of n xs) = xs"
proof (induction n xs rule: chunks_of.induct)
  case (1 n xs)
  then show ?case
    by (subst chunks_of.simps) auto
qed

lemma chunks_of_lengths: "c \<in> set (chunks_of n xs) \<Longrightarrow> 1 \<le> length c \<and> length c \<le> n"
proof (induction n xs rule: chunks_of.induct)
  case (1 n xs)
  show ?case
  proof (cases "n = 0 \<or> xs = []")
    case True
    with "1.prems" show ?thesis by (subst (asm) chunks_of.simps) simp
  next
    case False
    with "1.prems" have "c = take n xs \<or> c \<in> set (chunks_of n (drop n xs))"
      by (subst (asm) chunks_of.simps) simp
    then show ?thesis
    proof
      assume "c = take n xs"
      with False show ?thesis by (cases xs) auto
    next
      assume "c \<in> set (chunks_of n (drop n xs))"
      with "1.IH" False show ?thesis by simp
    qed
  qed
qed

lemma length_chunks_of: "0 < n \<Longrightarrow> length (chunks_of n xs) = (length xs + n - 1) div n"
proof (induction n xs rule: chunks_of.induct)
  case (1 n xs)
  from "1.prems" have n0: "n \<noteq> 0" by simp
  show ?case
  proof (cases "xs = []")
    case True
    with "1.prems" show ?thesis by simp
  next
    case False
    then have pos: "1 \<le> length xs" by (cases xs) simp_all
    from False "1.prems" have step: "length (chunks_of n xs) = Suc (length (chunks_of n (drop n xs)))"
      by (subst chunks_of.simps) simp
    have split: "length xs + n - 1 = (length xs - 1) + n"
      using pos by linarith
    have up: "(length xs + n - 1) div n = Suc ((length xs - 1) div n)"
      unfolding split by (simp only: div_add_self2 [OF n0] Suc_eq_plus1)
    have ih: "length (chunks_of n (drop n xs)) = (length (drop n xs) + n - 1) div n"
      using "1.IH" False "1.prems" n0 by blast
    show ?thesis
    proof (cases "n \<le> length xs")
      case True
      then have "length (drop n xs) + n - 1 = length xs - 1" by simp
      with ih step up show ?thesis by (simp only:)
    next
      case False
      then have "drop n xs = []" by simp
      then have "length (chunks_of n xs) = 1" using step by (simp only: chunks_of_Nil) simp
      moreover from False pos have "length xs - 1 < n" by linarith
      then have "(length xs - 1) div n = 0" by (rule div_less)
      ultimately show ?thesis using up by (simp only:)
    qed
  qed
qed

lemma total_len_of_round4: "total_len_of n = 4 * ((n + 3) div 4)"
  unfolding total_len_of_def Let_def by presburger

subsection \<open>A device that answers\<close>

text \<open>
  The steps of a run against a device that acknowledges a command, and one that
  answers a status request with a given status byte.
\<close>

lemma send_cmd_acked:
  assumes "1 \<le> length data" and "length data \<le> 253" and "0 < timeout_ms" and "wr t = []"
    and "rx t \<noteq> []" and "hd (rx t) = RxData [0xCC]"
  shows "sbl_send_cmd t data 0 timeout_ms =
           (Inr [], t\<lparr>tx := tx t @ [build_frame data], rx := tl (rx t)\<rparr>)"
proof -
  define t1 where "t1 = t\<lparr>tx := tx t @ [build_frame data]\<rparr>"
  have w: "serial_write_all t (build_frame data) = (True, t1)"
    using assms(4) by (simp add: serial_write_all_def t1_def)
  have "rx t1 = RxData (0xCC # []) # tl (rx t)"
    using assms(5,6) by (cases "rx t") (simp_all add: t1_def)
  from wait_ack_sees_ack [OF assms(3) this]
  have a: "sbl_wait_ack t1 timeout_ms = (Inr (), t1\<lparr>rx := tl (rx t)\<rparr>)"
    by simp
  show ?thesis
    using assms(1,2) w a by (auto simp: sbl_send_cmd_def t1_def)
qed

lemma get_status_answered:
  assumes "0 < timeout_ms" and "wr t = []"
    and "take 2 (rx t) = [RxData [0xCC], RxData [3, st, st]]"
  shows "sbl_get_status t timeout_ms st0 =
           (Inr st, t\<lparr>tx := tx t @ [build_frame [CMD_GET_STATUS], [0x00, 0xCC]],
                      rx := drop 2 (rx t)\<rparr>)"
proof -
  have "unat st < 256"
    using unsigned_less [of st, where ?'a = nat] by simp
  then have c: "checksum_sum [st] = st"
    by (simp add: word_unat_eq_iff unat_checksum_sum)
  from assms(3) have "rx t = RxData [0xCC] # RxData (3 # checksum_sum [st] # [st]) # drop 2 (rx t)"
    by (metis append_take_drop_id append_Cons append_Nil c)
  from send_cmd_with_response [OF _ _ assms(1,2) this, of "[CMD_GET_STATUS]" 1]
  show ?thesis
    by (simp add: sbl_get_status_def)
qed

lemmas flow_simps =
  sbl_program_binary_def erase_loop.simps transfer_loop.simps total_len_of_def
  erase_len_rounded_def erase_len_capped_def Let_def
  sbl_sector_erase_def sbl_download_def sbl_send_data_def sbl_reset_def
  send_cmd_acked get_status_answered [where st = "0x40"]

lemmas opcode_simps =
  CMD_PING_def CMD_DOWNLOAD_def CMD_GET_STATUS_def CMD_SEND_DATA_def CMD_RESET_def
  CMD_SECTOR_ERASE_def CMD_CRC32_def CMD_GET_CHIP_ID_def

lemma frame_opcode_build_frame [simp]: "frame_opcode (build_frame (d # ds)) = Some d"
  by (simp add: build_frame_def)

text \<open>
  A device that acknowledges every frame and answers every status request with
  \<open>SUCCESS\<close> (\<open>0x40\<close>), for a run with one page to erase and three chunks to send.
\<close>

definition device_all_success :: transport where
  "device_all_success =
     \<lparr>rx = [RxData [0xCC], RxData [0xCC], RxData [3, 0x40, 0x40],
             RxData [0xCC], RxData [0xCC], RxData [3, 0x40, 0x40],
             RxData [0xCC], RxData [0xCC], RxData [3, 0x40, 0x40],
             RxData [0xCC], RxData [0xCC], RxData [3, 0x40, 0x40],
             RxData [0xCC], RxData [0xCC], RxData [3, 0x40, 0x40],
             RxData [0xCC]],
      tx = [], wr = []\<rparr>"

subsection \<open>What a run that fails has sent\<close>

lemma send_data_sent:
  assumes "sbl_send_data t buf to = (r, t')"
  shows "\<exists>new. tx t' = tx t @ new \<and>
           (map (drop 3) (frames_with CMD_SEND_DATA new) = [buf] \<or>
            frames_with CMD_SEND_DATA new = [])"
proof (cases "length buf = 0 \<or> length buf > 252")
  case True
  with assms have "t' = t" by (auto simp: sbl_send_data_def)
  then show ?thesis by (intro exI [of _ "[]"]) simp
next
  case False
  with assms have s: "sbl_send_cmd t (CMD_SEND_DATA # buf) 0 to = (r, t')"
    by (auto simp: sbl_send_data_def)
  from False have "length buf \<le> 252" by simp
  from send_cmd_log [OF s this] obtain new where n: "tx t' = tx t @ new"
    "\<And>c. frames_with c new = (if c = CMD_SEND_DATA then [build_frame (CMD_SEND_DATA # buf)] else [])"
    by auto
  show ?thesis
    by (rule exI [of _ new]) (simp add: n build_frame_def)
qed

lemma sent_introI:
  "tx t' = tx t @ new \<Longrightarrow> C = map (drop 3) (frames_with CMD_SEND_DATA new) @ rest \<Longrightarrow>
     \<exists>new rest. tx t' = tx t @ new \<and> C = map (drop 3) (frames_with CMD_SEND_DATA new) @ rest"
  by blast

lemma transfer_loop_sent:
  "transfer_loop t img total_len off = (r, t') \<Longrightarrow> length img \<le> total_len \<Longrightarrow>
     \<exists>new rest. tx t' = tx t @ new \<and>
       chunks_of 252 (drop off (padded_image img total_len)) =
         map (drop 3) (frames_with CMD_SEND_DATA new) @ rest"
proof (induction "total_len - off" arbitrary: t off rule: less_induct)
  case less
  note unf = transfer_loop.simps [of t img total_len off]
  let ?P = "padded_image img total_len"
  let ?C = "chunks_of 252 (drop off ?P)"
  have lenP: "length ?P = total_len" using less.prems(2) by (rule length_padded_image)
  show ?case
  proof (cases "off < total_len")
    case False
    with less.prems unf have eq: "t' = t" by simp
    show ?thesis using eq by - (rule sent_introI [where new = "[]" and rest = "?C"], simp_all)
  next
    case True
    define chunk_len where "chunk_len = (if total_len - off > 252 then 252 else total_len - off)"
    define copy_len where
      "copy_len = (if off + chunk_len > length img then length img - off else chunk_len)"
    define buf where
      "buf = take copy_len (drop off img) @ replicate (chunk_len - copy_len) (0xFF :: u8)"
    have cl: "0 < chunk_len" "chunk_len \<le> 252" "off + chunk_len \<le> total_len"
      using True by (auto simp: chunk_len_def)
    show ?thesis
    proof (cases "off + chunk_len > length img \<and> length img < off")
      case trap: True
      have "transfer_loop t img total_len off = (Inl (Trap_copy_overrun off), t)"
        apply (subst unf)
        apply (unfold Let_def)
        apply (fold chunk_len_def)
        apply (simp add: True trap [simplified])
        done
      with less.prems have eq: "t' = t" by simp
      show ?thesis using eq by - (rule sent_introI [where new = "[]" and rest = "?C"], simp_all)
    next
      case notrap: False
      then have off_le: "off \<le> length img" using cl by linarith
      have bufP: "buf = take 252 (drop off ?P)"
        unfolding buf_def copy_len_def chunk_len_def
        using chunk_buf [OF True off_le less.prems(2)] .
      have tail: "chunks_of 252 (drop (off + chunk_len) ?P) = chunks_of 252 (drop (off + 252) ?P)"
      proof (cases "chunk_len = 252")
        case True
        then show ?thesis by simp
      next
        case False
        then have "off + chunk_len = total_len"
          using True by (simp add: chunk_len_def split: if_splits)
        then show ?thesis using lenP cl(2) by simp
      qed
      have C: "?C = buf # chunks_of 252 (drop (off + chunk_len) ?P)"
        using chunks_of_step [of off ?P 252] True lenP bufP tail by simp
      obtain r1 t1 where sd: "sbl_send_data t buf 1000 = (r1, t1)" by (metis surj_pair)
      from send_data_sent [OF sd] obtain n1 where n1: "tx t1 = tx t @ n1"
        "map (drop 3) (frames_with CMD_SEND_DATA n1) = [buf] \<or> frames_with CMD_SEND_DATA n1 = []"
        by auto
      have step: "transfer_loop t img total_len off =
         (if r1 \<noteq> Inr [] then (Inl (Send_data_failed off), t1)
          else case sbl_get_status t1 500 0 of
                 (Inl e, t2) \<Rightarrow> (Inl (Status_failed_after off), t2)
               | (Inr st, t2) \<Rightarrow>
                   if st \<noteq> 0x40 then (Inl (Prog_status_not_success st off), t2)
                   else transfer_loop t2 img total_len (off + chunk_len))"
        apply (subst unf)
        apply (unfold Let_def)
        apply (fold chunk_len_def)
        apply (fold copy_len_def)
        apply (fold buf_def)
        apply (simp add: True off_le [THEN leD] sd)
        done
      show ?thesis
      proof (cases "r1 = Inr []")
        case False
        with step less.prems have t': "t' = t1" by simp
        from n1(2) show ?thesis
        proof
          assume "map (drop 3) (frames_with CMD_SEND_DATA n1) = [buf]"
          with n1(1) C t' show ?thesis
            by - (rule sent_introI [where new = "n1" and rest = "chunks_of 252 (drop (off + chunk_len) ?P)"], simp_all)
        next
          assume "frames_with CMD_SEND_DATA n1 = []"
          with n1(1) t' show ?thesis
            by - (rule sent_introI [where new = "n1" and rest = "?C"], simp_all)
        qed
      next
        case ok: True
        from send_data_log [OF sd] ok n1(1)
        have s1: "map (drop 3) (frames_with CMD_SEND_DATA n1) = [buf]" by auto
        obtain r2 t2 where gs: "sbl_get_status t1 500 0 = (r2, t2)" by (metis surj_pair)
        have ne: "CMD_SEND_DATA \<noteq> CMD_GET_STATUS"
          by (simp add: CMD_SEND_DATA_def CMD_GET_STATUS_def)
        from get_status_log [OF gs] ne obtain n2 where n2: "tx t2 = tx t1 @ n2"
          "frames_with CMD_SEND_DATA n2 = []"
          by auto
        have upto2: ?thesis if "t' = t2"
          using that n1(1) n2 s1 C
          by - (rule sent_introI [where new = "n1 @ n2" and rest = "chunks_of 252 (drop (off + chunk_len) ?P)"], simp_all)
        show ?thesis
        proof (cases r2)
          case (Inl err)
          with step ok gs less.prems have eq: "t' = t2" by simp
          show ?thesis using upto2 [OF eq] .
        next
          case (Inr st)
          show ?thesis
          proof (cases "st = 0x40")
            case False
            with step ok gs Inr less.prems have eq: "t' = t2" by simp
            show ?thesis using upto2 [OF eq] .
          next
            case st: True
            with step ok gs Inr less.prems
            have rec: "transfer_loop t2 img total_len (off + chunk_len) = (r, t')" by simp
            have "total_len - (off + chunk_len) < total_len - off"
              using True cl by linarith
            from less.hyps [OF this rec less.prems(2)]
            obtain n3 rest where n3: "tx t' = tx t2 @ n3"
              "chunks_of 252 (drop (off + chunk_len) ?P) =
                 map (drop 3) (frames_with CMD_SEND_DATA n3) @ rest"
              by auto
            with n1(1) n2 s1 C show ?thesis
              by - (rule sent_introI [where new = "n1 @ n2 @ n3" and rest = "rest"], simp_all)
          qed
        qed
      qed
    qed
  qed
qed

lemma program_binary_sent:
  assumes run: "sbl_program_binary t flash_size page_size img base_addr = (r, t')"
  shows "\<exists>rest. chunks_of 252 (padded_image img (total_len_of (length img))) =
                  sent_chunks t t' @ rest"
proof (cases "page_size = 0 \<or> base_addr mod page_size \<noteq> 0")
  case True
  with run have "t' = t"
    by (auto simp: sbl_program_binary_def split: if_splits)
  then show ?thesis
    by (simp add: sent_chunks_def tx_since_def)
next
  case False
  define total where "total = total_len_of (length img)"
  define lim where "lim = base_addr + erase_len_capped flash_size page_size base_addr
                      (erase_len_rounded page_size (of_nat (length img)))"
  let ?C = "chunks_of 252 (padded_image img total)"
  obtain r1 t1 where e1: "erase_loop t base_addr lim page_size = (r1, t1)" by (metis surj_pair)
  obtain r2 t2 where e2: "sbl_download t1 base_addr (of_nat total) 1000 = (r2, t2)"
    by (metis surj_pair)
  obtain r3 t3 where e3: "sbl_get_status t2 500 0 = (r3, t3)" by (metis surj_pair)
  obtain r4 t4 where e4: "transfer_loop t3 img total 0 = (r4, t4)" by (metis surj_pair)
  obtain r5 t5 where e5: "sbl_reset t4 1000 = (r5, t5)" by (metis surj_pair)
  have unf: "(r, t') =
     (case erase_loop t base_addr lim page_size of
        (Inl e, t1) \<Rightarrow> (Inl e, t1)
      | (Inr u, t1) \<Rightarrow>
          (case sbl_download t1 base_addr (of_nat total) 1000 of
             (r, t2) \<Rightarrow>
               if r \<noteq> Inr [] then (Inl Download_failed, t2)
               else
                 (case sbl_get_status t2 500 0 of
                    (Inl e, t3) \<Rightarrow> (Inl Status_after_download_failed, t3)
                  | (Inr st, t3) \<Rightarrow>
                      if st \<noteq> 0x40 then (Inl (Download_rejected st), t3)
                      else
                        (case transfer_loop t3 img total 0 of
                           (Inl e, t4) \<Rightarrow> (Inl e, t4)
                         | (Inr u, t4) \<Rightarrow> (Inr (), snd (sbl_reset t4 1000))))))"
    using run [symmetric] False
    unfolding sbl_program_binary_def Let_def lim_def [symmetric] total_def [symmetric]
    by simp
  note d = cmd_distinct
  from erase_loop_log [OF e1] d obtain n1 where n1: "tx t1 = tx t @ n1"
    "frames_with CMD_SEND_DATA n1 = []"
    by auto
  from download_log [OF e2] d obtain n2 where n2: "tx t2 = tx t1 @ n2"
    "frames_with CMD_SEND_DATA n2 = []"
    by auto
  from get_status_log [OF e3] d obtain n3 where n3: "tx t3 = tx t2 @ n3"
    "frames_with CMD_SEND_DATA n3 = []"
    by auto
  have le: "length img \<le> total" by (simp add: total_def total_len_of_ge)
  from transfer_loop_sent [OF e4 le] obtain n4 rest where n4: "tx t4 = tx t3 @ n4"
    "?C = map (drop 3) (frames_with CMD_SEND_DATA n4) @ rest"
    by auto
  from reset_log [OF e5] d obtain n5 where n5: "tx t5 = tx t4 @ n5"
    "frames_with CMD_SEND_DATA n5 = []"
    by auto
  have s1: "sent_chunks t t1 = []" using n1 by (simp add: sent_chunks_def tx_since_def)
  have s2: "sent_chunks t t2 = []" using n1 n2 by (simp add: sent_chunks_def tx_since_def)
  have s3: "sent_chunks t t3 = []" using n1 n2 n3 by (simp add: sent_chunks_def tx_since_def)
  have s4: "sent_chunks t t4 = map (drop 3) (frames_with CMD_SEND_DATA n4)"
    using n1 n2 n3 n4(1) by (simp add: sent_chunks_def tx_since_def)
  have s5: "sent_chunks t t5 = map (drop 3) (frames_with CMD_SEND_DATA n4)"
    using n1 n2 n3 n4(1) n5 by (simp add: sent_chunks_def tx_since_def)
  have "t' = t1 \<or> t' = t2 \<or> t' = t3 \<or> t' = t4 \<or> t' = t5"
    using unf e1 e2 e3 e4 e5 by (auto split: sum.splits if_splits)
  then have "sent_chunks t t' = [] \<or> sent_chunks t t' = map (drop 3) (frames_with CMD_SEND_DATA n4)"
    using s1 s2 s3 s4 s5 by auto
  then show ?thesis
  proof
    assume "sent_chunks t t' = []"
    then show ?thesis by simp
  next
    assume "sent_chunks t t' = map (drop 3) (frames_with CMD_SEND_DATA n4)"
    with n4(2) show ?thesis by (auto simp: total_def)
  qed
qed

section \<open>Properties of the workflow\<close>

text \<open>
  Claim C4.  The erase length that \<^verbatim>\<open>sbl_program_binary\<close> computes satisfies
  \<^verbatim>\<open>base_addr + erase_len <= flash_size - page_size\<close> in the program's 32-bit
  arithmetic, for every input (aligned or not); and every address for which a run sends
  a sector-erase frame is below \<^verbatim>\<open>flash_size - page_size\<close>, the start of the last
  page.
\<close>

theorem erase_stays_below_last_page:
  "base_addr + erase_len_capped flash_size page_size base_addr
       (erase_len_rounded page_size (of_nat (length img))) \<le> flash_size - page_size \<and>
   (\<forall>a \<in> set (erased_addrs t (snd (sbl_program_binary t flash_size page_size img base_addr))).
      a < flash_size - page_size)"
proof -
  obtain r t' where run: "sbl_program_binary t flash_size page_size img base_addr = (r, t')"
    by (metis surj_pair)
  from program_binary_log [OF run] obtain new where n: "tx t' = tx t @ new"
    "\<And>fr. fr \<in> set (frames_with CMD_SECTOR_ERASE new) \<Longrightarrow>
       frame_addr fr < base_addr + erase_len_capped flash_size page_size base_addr
         (erase_len_rounded page_size (of_nat (length img)))"
    by auto
  note le = erase_len_capped_le [of base_addr flash_size page_size
      "erase_len_rounded page_size (of_nat (length img))"]
  have "a < flash_size - page_size" if "a \<in> set (erased_addrs t t')" for a
  proof -
    from that obtain fr where fr: "fr \<in> set (frames_with CMD_SECTOR_ERASE new)" "a = frame_addr fr"
      by (auto simp: erased_addrs_def tx_since_append [OF n(1)])
    from less_le_trans [OF n(2) [OF fr(1)] le] fr(2) show ?thesis by simp
  qed
  with le run show ?thesis by simp
qed

theorem erase_stays_below_last_page_witness:
  "erased_addrs device_all_success
     (snd (sbl_program_binary device_all_success 0x20000 0x1000 (replicate 517 0x5A) 0)) = [0] \<and>
   (0 :: u32) < 0x20000 - 0x1000 \<and>
   (0 :: u32) + erase_len_capped 0x20000 0x1000 0 (erase_len_rounded 0x1000 (of_nat 517))
     \<le> 0x20000 - 0x1000"
proof -
  let ?run = "sbl_program_binary device_all_success 0x20000 0x1000 (replicate 517 0x5A) 0"
  have e: "erased_addrs device_all_success (snd ?run) = [0]"
    by (simp add: device_all_success_def flow_simps erased_addrs_def tx_since_def
        frames_with_def opcode_simps frame_addr_def build_frame_def)
  from erase_stays_below_last_page
    [of 0 "0x20000" "0x1000" "replicate 517 0x5A" device_all_success] e
  show ?thesis by simp
qed

text \<open>
  Claim C10.  \<^verbatim>\<open>sbl_program_binary\<close> has no guard against \<^verbatim>\<open>page_size == 0\<close>: the
  run reaches the undefined \<^verbatim>\<open>base_addr % page_size\<close> exactly when the page size is
  0.  With any other page size the run is defined: it never reaches that division, and
  it never reaches the overrunning copy of the transfer loop either.
\<close>

theorem program_binary_traps_iff_page_size_zero:
  "(fst (sbl_program_binary t flash_size page_size img base_addr) = Inl Trap_div_by_zero) =
     (page_size = 0) \<and>
   (\<exists>e. fst (sbl_program_binary t flash_size page_size img base_addr) = Inl e \<and> is_trap e) =
     (page_size = 0)"
proof -
  obtain r t' where run: "sbl_program_binary t flash_size page_size img base_addr = (r, t')"
    by (metis surj_pair)
  from program_binary_log [OF run]
  have a: "page_size = 0" if "r = Inl e" "is_trap e" for e
    using that by auto
  have b: "r = Inl Trap_div_by_zero" if "page_size = 0"
    using run that by (simp add: sbl_program_binary_def)
  have t: "is_trap Trap_div_by_zero" by (simp add: is_trap_def)
  show ?thesis
    unfolding run fst_conv using a b t by blast
qed

theorem program_binary_traps_iff_page_size_zero_witness:
  "fst (sbl_program_binary device_all_success 0x20000 0 (replicate 517 0x5A) 0) =
     Inl Trap_div_by_zero \<and>
   fst (sbl_program_binary device_all_success 0x20000 0x1000 (replicate 517 0x5A) 0) \<noteq>
     Inl Trap_div_by_zero"
  using program_binary_traps_iff_page_size_zero
      [of device_all_success "0x20000" 0 "replicate 517 0x5A" 0]
    program_binary_traps_iff_page_size_zero
      [of device_all_success "0x20000" "0x1000" "replicate 517 0x5A" 0]
  by simp

text \<open>
  Claim C2.  The announced length is the image length rounded up to a multiple of 4.
  In every run of \<^verbatim>\<open>sbl_program_binary\<close>, every chunk sent by a send-data frame
  has 1 to 252 bytes, and the byte sent at offset \<open>i\<close> of the transfer is the image's
  byte when \<open>i\<close> is below the image length and \<open>0xFF\<close> from there on; no more than
  the announced length is sent.  In a run that returns 0 the chunks are exactly the
  image followed by \<open>0xFF\<close> up to the announced length, cut into pieces of 252
  bytes: together they have the announced length and there are
  \<open>ceil (total_len / 252)\<close> of them, which is 3 for an image of 517 bytes.
\<close>

theorem transfer_sends_padded_image:
  assumes run: "sbl_program_binary t flash_size page_size img base_addr = (r, t')"
  shows "total_len_of (length img) = 4 * ((length img + 3) div 4) \<and>
         (\<forall>c \<in> set (sent_chunks t t'). 1 \<le> length c \<and> length c \<le> 252) \<and>
         length (concat (sent_chunks t t')) \<le> total_len_of (length img) \<and>
         (\<forall>i < length (concat (sent_chunks t t')).
            concat (sent_chunks t t') ! i = (if i < length img then img ! i else 0xFF)) \<and>
         (r = Inr () \<longrightarrow>
            sent_chunks t t' = chunks_of 252 (padded_image img (total_len_of (length img))) \<and>
            concat (sent_chunks t t') =
              img @ replicate (total_len_of (length img) - length img) 0xFF \<and>
            length (concat (sent_chunks t t')) = total_len_of (length img) \<and>
            length (sent_chunks t t') = (total_len_of (length img) + 251) div 252 \<and>
            (length img = 517 \<longrightarrow> length (sent_chunks t t') = 3))"
proof -
  let ?total = "total_len_of (length img)"
  let ?P = "padded_image img ?total"
  let ?S = "sent_chunks t t'"
  have ge: "length img \<le> ?total" by (rule total_len_of_ge)
  from program_binary_sent [OF run] obtain rest where C: "chunks_of 252 ?P = ?S @ rest" ..
  have "concat (chunks_of 252 ?P) = ?P" by (simp add: concat_chunks_of)
  with C have P: "?P = concat ?S @ concat rest" by simp
  have sz: "\<forall>c \<in> set ?S. 1 \<le> length c \<and> length c \<le> 252"
  proof
    fix c assume "c \<in> set ?S"
    then have "c \<in> set (chunks_of 252 ?P)" unfolding C by simp
    then show "1 \<le> length c \<and> length c \<le> 252" by (rule chunks_of_lengths)
  qed
  have "length ?P = ?total" using ge by (rule length_padded_image)
  with P have len: "length (concat ?S) \<le> ?total"
    by (metis le_add1 length_append)
  have nth: "\<forall>i < length (concat ?S). concat ?S ! i = (if i < length img then img ! i else 0xFF)"
  proof (intro allI impI)
    fix i assume i: "i < length (concat ?S)"
    then have "concat ?S ! i = ?P ! i"
      by (subst P) (simp add: nth_append)
    moreover from i len have "i < ?total" by simp
    ultimately show "concat ?S ! i = (if i < length img then img ! i else 0xFF)"
      by (simp add: padded_image_def nth_append)
  qed
  have ok: "?S = chunks_of 252 ?P \<and>
            concat ?S = img @ replicate (?total - length img) 0xFF \<and>
            length (concat ?S) = ?total \<and>
            length ?S = (?total + 251) div 252 \<and>
            (length img = 517 \<longrightarrow> length ?S = 3)" if "r = Inr ()"
  proof -
    from program_binary_log [OF run] that obtain new where n: "tx t' = tx t @ new"
      "map (drop 3) (frames_with CMD_SEND_DATA new) = chunks_of 252 ?P"
      by auto
    have ch: "?S = chunks_of 252 ?P"
      by (simp add: sent_chunks_def tx_since_append [OF n(1)] n(2))
    have cc: "concat ?S = img @ replicate (?total - length img) 0xFF"
      by (simp add: ch concat_chunks_of padded_image_def)
    have l: "length (concat ?S) = ?total"
      using ge by (simp add: cc)
    have cnt: "length ?S = (?total + 251) div 252"
      using ge by (simp add: ch length_chunks_of length_padded_image)
    have "length img = 517 \<longrightarrow> length ?S = 3"
      by (simp add: cnt total_len_of_def)
    with ch cc l cnt show ?thesis by (intro conjI)
  qed
  from ok have okimp: "r = Inr () \<longrightarrow>
            ?S = chunks_of 252 ?P \<and>
            concat ?S = img @ replicate (?total - length img) 0xFF \<and>
            length (concat ?S) = ?total \<and>
            length ?S = (?total + 251) div 252 \<and>
            (length img = 517 \<longrightarrow> length ?S = 3)" ..
  from total_len_of_round4 [of "length img"] sz len nth okimp show ?thesis
    by (intro conjI)
qed

theorem transfer_sends_padded_image_witness:
  "fst (sbl_program_binary device_all_success 0x20000 0x1000 (replicate 517 0x5A) 0) = Inr () \<and>
   length (sent_chunks device_all_success
     (snd (sbl_program_binary device_all_success 0x20000 0x1000 (replicate 517 0x5A) 0))) = 3 \<and>
   concat (sent_chunks device_all_success
     (snd (sbl_program_binary device_all_success 0x20000 0x1000 (replicate 517 0x5A) 0))) =
     replicate 517 0x5A @ replicate 3 0xFF"
proof -
  let ?run = "sbl_program_binary device_all_success 0x20000 0x1000 (replicate 517 0x5A) 0"
  have ok: "fst ?run = Inr ()"
    by (simp add: device_all_success_def flow_simps)
  then have "?run = (Inr (), snd ?run)"
    by (metis prod.collapse)
  note th = transfer_sends_padded_image [OF this, THEN conjunct2, THEN conjunct2, THEN conjunct2,
      THEN conjunct2, THEN mp, OF refl]
  have c: "concat (sent_chunks device_all_success (snd ?run)) =
             replicate 517 0x5A @ replicate 3 0xFF"
    using th [THEN conjunct2, THEN conjunct1]
    by (simp add: total_len_of_def)
  have l: "length (sent_chunks device_all_success (snd ?run)) = 3"
    using th [THEN conjunct2, THEN conjunct2, THEN conjunct2, THEN conjunct2]
    by simp
  from ok l c show ?thesis by (intro conjI)
qed

text \<open>
  A device that acknowledges every frame and reports success everywhere, except that
  it reports \<open>FLASH_FAIL\<close> (\<open>0x44\<close>) after the second sector erase.
\<close>

definition device_flash_fail :: transport where
  "device_flash_fail =
     \<lparr>rx = [
             RxData [0xCC], RxData [0xCC], RxData [3, 0x40, 0x40],
             RxData [0xCC], RxData [0xCC], RxData [3, 0x44, 0x44],
             RxData [0xCC], RxData [0xCC], RxData [3, 0x40, 0x40],
             RxData [0xCC], RxData [0xCC], RxData [3, 0x40, 0x40],
             RxData [0xCC], RxData [0xCC], RxData [3, 0x40, 0x40],
             RxData [0xCC], RxData [0xCC], RxData [3, 0x40, 0x40],
             RxData [0xCC], RxData [0xCC], RxData [3, 0x40, 0x40],
             RxData [0xCC], RxData [0xCC], RxData [3, 0x40, 0x40],
             RxData [0xCC], RxData [0xCC], RxData [3, 0x40, 0x40],
             RxData [0xCC], RxData [0xCC], RxData [3, 0x40, 0x40],
             RxData [0xCC], RxData [0xCC], RxData [3, 0x40, 0x40],
             RxData [0xCC], RxData [0xCC], RxData [3, 0x40, 0x40],
             RxData [0xCC], RxData [0xCC], RxData [3, 0x40, 0x40],
             RxData [0xCC], RxData [0xCC], RxData [3, 0x40, 0x40],
             RxData [0xCC], RxData [0xCC], RxData [3, 0x40, 0x40],
             RxData [0xCC], RxData [0xCC], RxData [3, 0x40, 0x40],
             RxData [0xCC], RxData [0xCC], RxData [3, 0x40, 0x40],
             RxData [0xCC], RxData [0xCC], RxData [3, 0x40, 0x40],
             RxData [0xCC], RxData [0xCC], RxData [3, 0x40, 0x40],
             RxData [0xCC], RxData [0xCC], RxData [3, 0x40, 0x40],
             RxData [0xCC]],
      tx = [], wr = []\<rparr>"

text \<open>
  Claim C1 does not hold of the code.  After each \<^verbatim>\<open>sbl_sector_erase\<close> the erase loop
  calls \<^verbatim>\<open>sbl_get_status\<close> and aborts when the call itself fails, but it only prints
  the status byte (the comment beside it says "expect 0x40") and never compares it with
  \<open>0x40\<close>, as the download step and the transfer loop of the same function do.  Run
  against a device that reports \<open>FLASH_FAIL\<close> (\<open>0x44\<close>) for the second page and
  answers everything else with success, the workflow erases both pages, sends the
  download command and all 17 chunks of a 4097-byte image, and returns 0.
\<close>

theorem erase_failure_is_not_checked:
  "fst (sbl_program_binary device_flash_fail 0x20000 0x1000 (replicate 4097 0x5A) 0) = Inr () \<and>
   erased_addrs device_flash_fail
     (snd (sbl_program_binary device_flash_fail 0x20000 0x1000 (replicate 4097 0x5A) 0)) =
     [0, 0x1000] \<and>
   length (frames_with CMD_DOWNLOAD (tx_since device_flash_fail
     (snd (sbl_program_binary device_flash_fail 0x20000 0x1000 (replicate 4097 0x5A) 0)))) = 1 \<and>
   length (sent_chunks device_flash_fail
     (snd (sbl_program_binary device_flash_fail 0x20000 0x1000 (replicate 4097 0x5A) 0))) = 17"
  by (simp add: device_flash_fail_def flow_simps get_status_answered [where st = "0x44"]
      erased_addrs_def sent_chunks_def tx_since_def
      frames_with_def opcode_simps frame_addr_def build_frame_def)

section \<open>The acknowledgement wait\<close>

text \<open>
  The specification's view of \<^verbatim>\<open>sbl_wait_ack\<close>.  A script, read one byte at a time,
  is a sequence of slices: a failed read, an idle poll window, or one byte.  The budget
  of \<open>timeout_ms\<close> is the number of 20 ms slices the loop may spend, one per read
  whatever the read brings.  The first failed read, \<open>0xCC\<close> or \<open>0x33\<close> among the
  slices within the budget decides the outcome; without one the wait times out.  The
  errors \<open>Rejected\<close>, \<open>Timeout\<close> and \<open>IoError\<close> of the specification are the code's
  \<open>-1\<close> with \<^verbatim>\<open>errno\<close> \<^verbatim>\<open>EPROTO\<close>, with \<^verbatim>\<open>ETIMEDOUT\<close>, and as the transport
  left it.
\<close>

datatype slice = SErr | SIdle | SByte u8

fun slices :: "rx_event list \<Rightarrow> slice list" where
  "slices [] = []"
| "slices (RxError # r) = SErr # slices r"
| "slices (RxTimeout # r) = SIdle # slices r"
| "slices (RxData bs # r) = (if bs = [] then [SIdle] else map SByte bs) @ slices r"

definition budget :: "int \<Rightarrow> nat" where
  "budget timeout_ms = nat ((timeout_ms + 19) div 20)"

definition decisive :: "slice \<Rightarrow> bool" where
  "decisive s = (s = SErr \<or> s = SByte 0xCC \<or> s = SByte 0x33)"

datatype ack_outcome = Ack | Rejected | Timeout | IoError

definition wait_ack_spec :: "nat \<Rightarrow> slice list \<Rightarrow> ack_outcome" where
  "wait_ack_spec n ss =
     (case find decisive (take n ss) of
        None \<Rightarrow> Timeout
      | Some SErr \<Rightarrow> IoError
      | Some SIdle \<Rightarrow> Timeout
      | Some (SByte b) \<Rightarrow> if b = 0xCC then Ack else Rejected)"

definition wait_ack_consumed :: "nat \<Rightarrow> slice list \<Rightarrow> nat" where
  "wait_ack_consumed n ss =
     (let skipped = length (takeWhile (\<lambda>s. \<not> decisive s) (take n ss))
      in if skipped < length (take n ss) then skipped + 1 else skipped)"

fun outcome_of :: "sbl_error + unit \<Rightarrow> ack_outcome option" where
  "outcome_of (Inr u) = Some Ack"
| "outcome_of (Inl EPROTO) = Some Rejected"
| "outcome_of (Inl ETIMEDOUT) = Some Timeout"
| "outcome_of (Inl EIO) = Some IoError"
| "outcome_of (Inl e) = None"

lemma wait_ack_spec_simps:
  "wait_ack_spec 0 ss = Timeout"
  "wait_ack_spec n [] = Timeout"
  "wait_ack_spec (Suc n) (SErr # ss) = IoError"
  "wait_ack_spec (Suc n) (SIdle # ss) = wait_ack_spec n ss"
  "wait_ack_spec (Suc n) (SByte b # ss) =
     (if b = 0xCC then Ack else if b = 0x33 then Rejected else wait_ack_spec n ss)"
  by (simp_all add: wait_ack_spec_def decisive_def)

lemma wait_ack_consumed_simps:
  "wait_ack_consumed 0 ss = 0"
  "wait_ack_consumed n [] = 0"
  "wait_ack_consumed (Suc n) (SErr # ss) = 1"
  "wait_ack_consumed (Suc n) (SIdle # ss) = Suc (wait_ack_consumed n ss)"
  "wait_ack_consumed (Suc n) (SByte b # ss) =
     (if b = 0xCC \<or> b = 0x33 then 1 else Suc (wait_ack_consumed n ss))"
  by (simp_all add: wait_ack_consumed_def decisive_def Let_def)

lemma read_one_slice:
  assumes "serial_read_timeout t 1 timeout_ms = (res, t')"
  shows "case slices (rx t) of
           [] \<Rightarrow> res = RdNone \<and> t' = t
         | SErr # ss \<Rightarrow> res = RdErr \<and> slices (rx t') = ss
         | SIdle # ss \<Rightarrow> res = RdNone \<and> slices (rx t') = ss
         | SByte b # ss \<Rightarrow> res = RdBytes [b] \<and> slices (rx t') = ss"
proof (cases "rx t")
  case Nil
  with assms show ?thesis by (simp add: serial_read_timeout_def)
next
  case (Cons e r)
  show ?thesis
  proof (cases e)
    case RxError
    with Cons assms show ?thesis by (auto simp: serial_read_timeout_def)
  next
    case RxTimeout
    with Cons assms show ?thesis by (auto simp: serial_read_timeout_def)
  next
    case (RxData bs)
    show ?thesis
    proof (cases bs)
      case Nil
      with RxData Cons assms show ?thesis by (auto simp: serial_read_timeout_def)
    next
      case (Cons b cs)
      with RxData \<open>rx t = e # r\<close> assms show ?thesis
        by (cases cs) (auto simp: serial_read_timeout_def)
    qed
  qed
qed

lemma budget_step: "w < timeout_ms \<Longrightarrow> budget (timeout_ms - w) = Suc (budget (timeout_ms - (w + 20)))"
  unfolding budget_def by (simp add: Suc_nat_eq_nat_zadd1 algebra_simps) 

lemma budget_done: "\<not> w < timeout_ms \<Longrightarrow> budget (timeout_ms - w) = 0"
  unfolding budget_def by simp

text \<open>
  Every value of \<open>waited\<close> is a multiple of 20.  The largest multiple of 20 that an
  \<^verbatim>\<open>int\<close> holds is \<open>2147483640 = INT_MAX - 7\<close>: up to that timeout the addition at
  the end of a round stays in range.
\<close>

lemma waited_in_range:
  assumes "w < timeout_ms" and "timeout_ms \<le> 2147483640" and "20 dvd w"
  shows "\<not> INT_MAX < w + 20" and "20 dvd (w + 20)"
proof -
  from assms(3) obtain k where k: "w = 20 * k" ..
  with assms(1,2) have "k < 107374182" by simp
  with k show "\<not> INT_MAX < w + 20" by (simp add: INT_MAX_def)
  from assms(3) show "20 dvd (w + 20)" by simp
qed

lemma wait_ack_loop_refines:
  "timeout_ms \<le> 2147483640 \<Longrightarrow> 20 dvd w \<Longrightarrow>
   outcome_of (fst (sbl_wait_ack_loop t timeout_ms w)) =
     Some (wait_ack_spec (budget (timeout_ms - w)) (slices (rx t))) \<and>
   slices (rx (snd (sbl_wait_ack_loop t timeout_ms w))) =
     drop (wait_ack_consumed (budget (timeout_ms - w)) (slices (rx t))) (slices (rx t))"
proof (induction t timeout_ms w rule: sbl_wait_ack_loop.induct)
  case (1 t timeout_ms waited)
  note unf = sbl_wait_ack_loop.simps [of t timeout_ms waited]
  note le = \<open>timeout_ms \<le> 2147483640\<close>
  show ?case
  proof (cases "waited < timeout_ms")
    case False
    then show ?thesis
      by (simp add: unf budget_done wait_ack_spec_simps wait_ack_consumed_simps)
  next
    case True
    note b = budget_step [OF True]
    note nov = waited_in_range [OF True le \<open>20 dvd waited\<close>]
    obtain res t1 where rd: "serial_read_timeout t 1 20 = (res, t1)" by (metis surj_pair)
    note one = read_one_slice [OF rd]
    show ?thesis
    proof (cases "slices (rx t)")
      case Nil
      with one have r: "res = RdNone" "t1 = t" by simp_all
      from "1.IH"(1) [OF True rd [symmetric] r(1) nov(1) le nov(2)] r Nil True rd nov(1)
      show ?thesis
        by (simp add: unf b wait_ack_spec_simps wait_ack_consumed_simps)
    next
      case (Cons s ss)
      show ?thesis
      proof (cases s)
        case SErr
        with Cons one True rd show ?thesis
          by (simp add: unf b wait_ack_spec_simps wait_ack_consumed_simps)
      next
        case SIdle
        with Cons one have r: "res = RdNone" "slices (rx t1) = ss" by simp_all
        from "1.IH"(1) [OF True rd [symmetric] r(1) nov(1) le nov(2)] r Cons SIdle True rd nov(1)
        show ?thesis
          by (simp add: unf b wait_ack_spec_simps wait_ack_consumed_simps)
      next
        case (SByte x)
        with Cons one have r: "res = RdBytes [x]" "slices (rx t1) = ss" by simp_all
        show ?thesis
        proof (cases "x = 0xCC \<or> x = 0x33")
          case True
          with r Cons SByte \<open>waited < timeout_ms\<close> rd show ?thesis
            by (auto simp: unf b wait_ack_spec_simps wait_ack_consumed_simps SBL_ACK_def SBL_NACK_def)
        next
          case False
          from "1.IH"(2) [OF True rd [symmetric] r(1) _ _ nov(1) le nov(2)] False
          have "outcome_of (fst (sbl_wait_ack_loop t1 timeout_ms (waited + 20))) =
                  Some (wait_ack_spec (budget (timeout_ms - (waited + 20))) (slices (rx t1))) \<and>
                slices (rx (snd (sbl_wait_ack_loop t1 timeout_ms (waited + 20)))) =
                  drop (wait_ack_consumed (budget (timeout_ms - (waited + 20))) (slices (rx t1)))
                    (slices (rx t1))"
            by (simp add: SBL_ACK_def SBL_NACK_def)
          with False r Cons SByte \<open>waited < timeout_ms\<close> rd nov(1) show ?thesis
            by (simp add: unf b wait_ack_spec_simps wait_ack_consumed_simps SBL_ACK_def SBL_NACK_def)
        qed
      qed
    qed
  qed
qed

text \<open>
  Above that timeout a transport that stays silent lets \<open>waited\<close> reach
  \<open>2147483640\<close>, which is still below \<open>timeout_ms\<close>, and the next addition overflows.
\<close>

lemma wait_ack_loop_silent_overflows:
  "rx t = [] \<Longrightarrow> 2147483640 < timeout_ms \<Longrightarrow> w \<le> 2147483640 \<Longrightarrow> 20 dvd w \<Longrightarrow>
   sbl_wait_ack_loop t timeout_ms w = (Inl Trap_int_overflow, t)"
proof (induction t timeout_ms w rule: sbl_wait_ack_loop.induct)
  case (1 t timeout_ms waited)
  note unf = sbl_wait_ack_loop.simps [of t timeout_ms waited]
  from "1.prems"(2,3) have lt: "waited < timeout_ms" by simp
  from "1.prems"(1) have rd: "serial_read_timeout t 1 20 = (RdNone, t)"
    by (simp add: serial_read_timeout_def)
  show ?case
  proof (cases "INT_MAX < waited + 20")
    case True
    with lt rd show ?thesis by (simp add: unf)
  next
    case False
    from "1.prems"(4) obtain k where k: "waited = 20 * k" ..
    with False have "k < 107374182" by (simp add: INT_MAX_def)
    with k have next_le: "waited + 20 \<le> 2147483640" by simp
    from "1.prems"(4) have next_dvd: "20 dvd (waited + 20)" by simp
    from "1.IH"(1) [OF lt rd [symmetric] refl False "1.prems"(1,2) next_le next_dvd]
      lt rd False
    show ?thesis by (simp add: unf)
  qed
qed

lemma outcome_of_iff:
  "outcome_of r = Some Ack \<longleftrightarrow> r = Inr ()"
  "outcome_of r = Some Rejected \<longleftrightarrow> r = Inl EPROTO"
  "outcome_of r = Some Timeout \<longleftrightarrow> r = Inl ETIMEDOUT"
  "outcome_of r = Some IoError \<longleftrightarrow> r = Inl EIO"
  by (cases r rule: outcome_of.cases; simp)+

lemma wait_ack_spec_Ack_iff:
  "wait_ack_spec n ss = Ack \<longleftrightarrow>
     (\<exists>i. i < n \<and> i < length ss \<and> ss ! i = SByte 0xCC \<and> (\<forall>j<i. \<not> decisive (ss ! j)))"
proof -
  have "wait_ack_spec n ss = Ack \<longleftrightarrow> find decisive (take n ss) = Some (SByte 0xCC)"
    by (auto simp: wait_ack_spec_def decisive_def split: option.splits slice.splits
        dest: find_Some_iff [THEN iffD1])
  also have "\<dots> \<longleftrightarrow>
     (\<exists>i. i < n \<and> i < length ss \<and> ss ! i = SByte 0xCC \<and> (\<forall>j<i. \<not> decisive (ss ! j)))"
    unfolding find_Some_iff by (auto simp: decisive_def)
  finally show ?thesis .
qed

text \<open>
  Every command goes through \<^verbatim>\<open>sbl_send_cmd\<close> with its timeout, and the programming
  workflow passes 1000 and 5000: no command there can reach the overflow.
\<close>

lemma wait_ack_no_overflow:
  "timeout_ms \<le> 2147483640 \<Longrightarrow> fst (sbl_wait_ack t timeout_ms) \<noteq> Inl Trap_int_overflow"
  using wait_ack_loop_refines [of timeout_ms 0 t] by (auto simp: sbl_wait_ack_def)

lemma send_cmd_no_overflow:
  assumes "timeout_ms \<le> 2147483640"
  shows "fst (sbl_send_cmd t data out_max timeout_ms) \<noteq> Inl Trap_int_overflow"
proof -
  have w: "e \<noteq> Trap_int_overflow" if "sbl_wait_ack t1 timeout_ms = (Inl e, t2)" for t1 e t2
    using wait_ack_no_overflow [OF assms, of t1] that by auto
  show ?thesis
    by (auto simp: sbl_send_cmd_def sbl_read_response_def Let_def dest: w
        split: prod.splits sum.splits bool.splits if_splits)
qed

text \<open>
  Claim C5.  For a timeout of at most \<open>2147483640\<close> (\<open>INT_MAX - 7\<close>) and on every
  script, \<^verbatim>\<open>sbl_wait_ack\<close> returns what the first decisive slice within the budget
  says: success for \<open>0xCC\<close>, \<open>Rejected\<close> for \<open>0x33\<close>, \<open>IoError\<close> for a failed
  read, and \<open>Timeout\<close> when the budget holds no decisive slice.  Every other byte is
  dropped and still costs its slice.  The wait stops at the decisive slice: it has
  consumed the slices before it and that one, no more, and it has written nothing.  In
  particular it succeeds exactly when some slice within the budget is \<open>0xCC\<close> and no
  slice before it is \<open>0x33\<close>, \<open>0xCC\<close> or a failed read.
\<close>

theorem wait_ack_refines_spec:
  assumes "timeout_ms \<le> 2147483640"
  shows
  "outcome_of (fst (sbl_wait_ack t timeout_ms)) =
     Some (wait_ack_spec (budget timeout_ms) (slices (rx t))) \<and>
   slices (rx (snd (sbl_wait_ack t timeout_ms))) =
     drop (wait_ack_consumed (budget timeout_ms) (slices (rx t))) (slices (rx t)) \<and>
   tx (snd (sbl_wait_ack t timeout_ms)) = tx t \<and>
   (fst (sbl_wait_ack t timeout_ms) = Inr ()) =
     (\<exists>i. i < budget timeout_ms \<and> i < length (slices (rx t)) \<and>
          slices (rx t) ! i = SByte 0xCC \<and> (\<forall>j<i. \<not> decisive (slices (rx t) ! j)))"
proof -
  note r = wait_ack_loop_refines [OF assms, of 0 t, simplified, folded sbl_wait_ack_def]
  have "tx (snd (sbl_wait_ack t timeout_ms)) = tx t"
    using sbl_wait_ack_effect(1) [of t timeout_ms] by (metis prod.collapse)
  moreover have "(fst (sbl_wait_ack t timeout_ms) = Inr ()) =
     (\<exists>i. i < budget timeout_ms \<and> i < length (slices (rx t)) \<and>
          slices (rx t) ! i = SByte 0xCC \<and> (\<forall>j<i. \<not> decisive (slices (rx t) ! j)))"
    using r [THEN conjunct1] outcome_of_iff(1) [of "fst (sbl_wait_ack t timeout_ms)"]
      wait_ack_spec_Ack_iff [of "budget timeout_ms" "slices (rx t)"]
    by simp
  ultimately show ?thesis using r by (intro conjI) simp_all
qed

theorem wait_ack_refines_spec_witness:
  "(100 :: int) \<le> 2147483640 \<and>
   fst (sbl_wait_ack \<lparr>rx = [RxData [0x00, 0x00, 0xCC]], tx = [], wr = []\<rparr> 100) = Inr () \<and>
   fst (sbl_wait_ack \<lparr>rx = [RxTimeout, RxData [0x33, 0xCC]], tx = [], wr = []\<rparr> 100) = Inl EPROTO \<and>
   fst (sbl_wait_ack \<lparr>rx = [], tx = [], wr = []\<rparr> 100) = Inl ETIMEDOUT \<and>
   fst (sbl_wait_ack \<lparr>rx = [RxData [0x00, 0x00, 0x00, 0x00, 0x00, 0xCC]], tx = [], wr = []\<rparr> 100) =
     Inl ETIMEDOUT \<and>
   fst (sbl_wait_ack \<lparr>rx = [RxData [0x00], RxError, RxData [0xCC]], tx = [], wr = []\<rparr> 100) = Inl EIO \<and>
   fst (sbl_wait_ack \<lparr>rx = [], tx = [], wr = []\<rparr> 2147483640) = Inl ETIMEDOUT"
proof -
  have le: "(100 :: int) \<le> 2147483640" and le': "(2147483640 :: int) \<le> 2147483640" by simp_all
  have b: "budget 100 = 5" by (simp add: budget_def)
  have five: "(5 :: nat) = Suc (Suc (Suc (Suc (Suc 0))))" by simp
  note s = wait_ack_spec_simps
  show ?thesis
    using
      wait_ack_refines_spec [OF le, of "\<lparr>rx = [RxData [0x00, 0x00, 0xCC]], tx = [], wr = []\<rparr>", THEN conjunct1]
      wait_ack_refines_spec [OF le, of "\<lparr>rx = [RxTimeout, RxData [0x33, 0xCC]], tx = [], wr = []\<rparr>", THEN conjunct1]
      wait_ack_refines_spec [OF le, of "\<lparr>rx = [], tx = [], wr = []\<rparr>", THEN conjunct1]
      wait_ack_refines_spec [OF le, of "\<lparr>rx = [RxData [0x00, 0x00, 0x00, 0x00, 0x00, 0xCC]], tx = [], wr = []\<rparr>", THEN conjunct1]
      wait_ack_refines_spec [OF le, of "\<lparr>rx = [RxData [0x00], RxError, RxData [0xCC]], tx = [], wr = []\<rparr>", THEN conjunct1]
      wait_ack_refines_spec [OF le', of "\<lparr>rx = [], tx = [], wr = []\<rparr>", THEN conjunct1]
    unfolding b five
    by (simp add: s outcome_of_iff)
qed

text \<open>
  Without the bound the statement fails.  With \<open>timeout_ms = INT_MAX\<close>, or any
  timeout above \<open>2147483640\<close>, and a transport that never delivers anything, the budget
  holds no decisive slice, yet the wait does not return \<open>Timeout\<close>: after
  \<open>107374183\<close> silent slices \<^verbatim>\<open>waited += step_ms\<close> leaves the range of \<^verbatim>\<open>int\<close>.
\<close>

theorem wait_ack_overflow_counterexample:
  "wait_ack_spec (budget 2147483647) (slices (rx \<lparr>rx = [], tx = [], wr = []\<rparr>)) = Timeout \<and>
   fst (sbl_wait_ack \<lparr>rx = [], tx = [], wr = []\<rparr> 2147483647) = Inl Trap_int_overflow \<and>
   fst (sbl_wait_ack \<lparr>rx = [], tx = [], wr = []\<rparr> 2147483641) = Inl Trap_int_overflow \<and>
   outcome_of (fst (sbl_wait_ack \<lparr>rx = [], tx = [], wr = []\<rparr> 2147483647)) \<noteq> Some Timeout"
  using
    wait_ack_loop_silent_overflows [of "\<lparr>rx = [], tx = [], wr = []\<rparr>" 2147483647 0]
    wait_ack_loop_silent_overflows [of "\<lparr>rx = [], tx = [], wr = []\<rparr>" 2147483641 0]
  by (simp add: sbl_wait_ack_def wait_ack_spec_simps)

end
